theory Spec2Isabelle
  imports Main
begin

section \<open>The scan driver of gitleaks: data model\<close>

text \<open>
  The theory embeds the scan driver (package \<open>scan\<close>): \<open>Scan\<close>, \<open>scanEmpty\<close>,
  \<open>scanUncommitted\<close>, \<open>getStagedChanges\<close>, \<open>scanPatch\<close>, \<open>scanCommit\<close>,
  \<open>scanCommitPatches\<close>, \<open>scanFilesAtCommit\<close>, \<open>depthReached\<close> and \<open>emptyCommit\<close>.

  Go's \<open>error\<close> results are values of the type \<open>error\<close>; a function returning
  \<open>error\<close> returns \<open>error + unit\<close>, where \<open>Inr ()\<close> is \<open>nil\<close>. A call can also
  fail to return: it panics (\<open>Panic\<close>, which a deferred \<open>recover\<close> of the same
  goroutine can absorb), or the whole process ends (\<open>Terminated\<close>: \<open>log.Fatal\<close>, or a
  panic that no deferred function of its goroutine recovers when that goroutine is a
  worker).
\<close>

datatype error =
    ErrStop
  | ErrReferenceNotFound
  | ErrRepoEmpty string
  | ErrCouldNotGeneratePatch
  | ErrOther string

datatype 'a exec = Return 'a | Panic | Terminated

text \<open>What \<open>parent.Patch(c)\<close> does: it returns a patch pointer (nil is \<open>None\<close>) and an
  error, or it panics.\<close>

datatype ('p) patch_result = PatchReturns "'p option" "error option" | PatchPanics

text \<open>
  \<open>plumbing.Hash\<close> is an array of 20 bytes. The driver only ever compares the hex
  rendering \<open>Hash.String()\<close>, so a hash is kept as that string; the zero value
  \<open>plumbing.Hash{}\<close> renders as forty zeros.
\<close>

type_synonym hash = string

definition zeroHash :: hash where
  "zeroHash = replicate 40 (CHR ''0'')"

text \<open>A \<open>time.Time\<close>: seconds and nanoseconds since the Unix epoch, and whether its
  location is UTC.\<close>

record gotime =
  unixSec :: int
  unixNsec :: int
  inUTC :: bool

record signature =
  sigName :: string
  sigEmail :: string
  sigWhen :: gotime

record commit =
  Hash :: hash
  Author :: signature
  Committer :: signature
  Message :: string
  TreeHash :: hash
  ParentHashes :: "hash list"

text \<open>\<open>fdiff.Operation\<close>: \<open>Equal\<close> is the zero value.\<close>

datatype operation = OpEqual | OpAdd | OpDelete

text \<open>The scan types (\<open>iota + 1\<close>: 1, 2, 3).\<close>

datatype scan_type = patchScan | uncommittedScan | commitScan

text \<open>A \<open>Bundle\<close> as the matcher sees it. The fields \<open>reader\<close> and \<open>lineLookup\<close>
  are the matcher's own scratch space and are left out. The commit pointer is never
  nil where a bundle is built.\<close>

record Bundle =
  Commit :: commit
  Patch :: string
  Content :: string
  FilePath :: string
  Operation :: operation
  scanType :: scan_type

record chunk =
  chunkContent :: string
  chunkType :: operation

text \<open>A file patch: \<open>Files()\<close> gives the two sides, each nil or a file with a path.\<close>

record file_patch =
  IsBinary :: bool
  fromPath :: "string option"
  toPath :: "string option"
  Chunks :: "chunk list"

record patch =
  patchString :: string
  FilePatches :: "file_patch list"

text \<open>A file of a commit's tree: \<open>IsBinary()\<close> returns a flag and an error,
  \<open>Contents()\<close> a string or an error.\<close>

record commit_file =
  fileName :: string
  fileIsBinary :: "bool \<times> error option"
  fileContents :: "error + string"

text \<open>A file opened in the worktree: its name, and what \<open>io.Copy\<close> reads from it.\<close>

record wt_file =
  wtName :: string
  wtCopy :: "error + string"

text \<open>A file found in the tree of HEAD.\<close>

record tree_file =
  treeName :: string
  treeContents :: "error + string"

datatype diff_op = DiffDelete | DiffInsert | DiffEqual

record diff =
  diffType :: diff_op
  diffText :: string

record options =
  OptCommit :: string
  OptFilesAtCommit :: string
  OptCommits :: string
  OptCommitsFile :: string
  OptCommitTo :: string
  OptDepth :: int
  OptDeletion :: bool
  OptRepoConfig :: bool

record config =
  AllowlistCommits :: "string list"

text \<open>
  The repository and everything outside the driver that it calls: the git object
  store, the worktree, the porcelain command, the diff library, the clock and the
  matcher. Each field is the result of the call of that name.
  \<^item> \<open>timeoutAt n\<close> is the answer of the \<open>n\<close>-th call of \<open>timeoutReached\<close> (the wall
    clock is not part of the program);
  \<^item> \<open>matcherPanics b\<close> says whether the matcher panics on bundle \<open>b\<close>;
  \<^item> \<open>Log\<close> is the sequence of commits the log iterator hands to the callback (a
    nil commit is \<open>None\<close>);
  \<^item> \<open>Parent0 c\<close> is \<open>c.Parent(0)\<close>: a commit pointer (nil is \<open>None\<close>) or an error;
  \<^item> \<open>GenPatch p c\<close> is \<open>p.Patch(c)\<close>: it returns a patch pointer and an error, or
    panics (the defect of the diff library the source's comment names);
  \<^item> \<open>wtStatus\<close> lists the file names of the worktree status in the order the map
    iteration yields them.
\<close>

record repo =
  Name :: string
  Opts :: options
  setupTimeout :: "error option"
  hasCancel :: bool
  RepositoryNil :: bool
  loadRepoConfig :: "error + config"
  Head :: "error + hash"
  CommitObject :: "hash \<Rightarrow> error + commit"
  Parent0 :: "commit \<Rightarrow> error + commit option"
  NewHash :: "string \<Rightarrow> hash"
  getLogOptions :: "error option"
  Log :: "error + commit option list"
  Files :: "commit \<Rightarrow> error + commit_file list"
  GenPatch :: "commit \<Rightarrow> commit \<Rightarrow> patch patch_result"
  timeoutAt :: "nat \<Rightarrow> bool"
  matcherPanics :: "Bundle \<Rightarrow> bool"
  openCommitsFile :: "error + string list"
  Worktree :: "error option"
  wtStatus :: "error + string list"
  wtOpen :: "string \<Rightarrow> error + wt_file"
  Tree :: "commit \<Rightarrow> error option"
  treeFile :: "string \<Rightarrow> error + tree_file"
  gitDiffCached :: "error + string"
  DiffMain :: "string \<Rightarrow> string \<Rightarrow> diff list"
  DiffCleanupSemantic :: "diff list \<Rightarrow> diff list"

text \<open>
  What the driver changes: the working configuration, the bundles handed to the
  matcher (in order), the commits handed to a worker, the number of clock polls, the
  manager's commit counter and its recorded timings (counted, the durations being wall
  clock), the semaphore slots held, the wait group's counter, and whether the cancel
  handle was released.
\<close>

record state =
  config :: config
  dispatched :: "Bundle list"
  handoffs :: "commit list"
  polls :: nat
  mgrCommits :: int
  patchTimes :: nat
  scanTimes :: nat
  sem :: nat
  wg :: nat
  cancelled :: bool

section \<open>Collaborators\<close>

text \<open>\<open>strings.Split(s, sep)\<close> for a separator of one byte: the pieces between the
  separators, so one piece more than there are separators (\<open>[""]\<close> for the empty
  string).\<close>

fun splitOn :: "char \<Rightarrow> string \<Rightarrow> string list" where
  "splitOn sep [] = [[]]"
| "splitOn sep (c # cs) =
     (if c = sep then [] # splitOn sep cs
      else (case splitOn sep cs of
              [] \<Rightarrow> [[c]]
            | w # ws \<Rightarrow> (c # w) # ws))"

definition LF :: char where
  "LF = CHR 0x0A"

definition TAB :: char where
  "TAB = CHR 0x09"

text \<open>Modelled from the spec: \<open>timeoutReached\<close> is not among the source files. The spec
  has it true once the wall clock exceeds the deadline; the clock being outside the
  program, the answer of each poll is read from the repository's \<open>timeoutAt\<close> and the
  poll is counted.\<close>

definition timeoutReached :: "repo \<Rightarrow> state \<Rightarrow> bool \<times> state" where
  "timeoutReached r s = (timeoutAt r (polls s), s\<lparr>polls := Suc (polls s)\<rparr>)"

text \<open>Modelled from the spec: \<open>isCommitAllowListed\<close> is not among the source files. The
  spec has a commit skipped when its hash is in the allowlist.\<close>

definition isCommitAllowListed :: "string \<Rightarrow> string list \<Rightarrow> bool" where
  "isCommitAllowListed h allowlistedCommits = List.member allowlistedCommits h"

text \<open>The matcher \<open>CheckRules\<close>: the bundle is recorded as dispatched; the matcher may
  panic on it.\<close>

definition CheckRules :: "repo \<Rightarrow> Bundle \<Rightarrow> state \<Rightarrow> unit exec \<times> state" where
  "CheckRules r b s =
     (if matcherPanics r b then Panic else Return (), s\<lparr>dispatched := dispatched s @ [b]\<rparr>)"

definition IncrementCommits :: "int \<Rightarrow> state \<Rightarrow> state" where
  "IncrementCommits n s = s\<lparr>mgrCommits := mgrCommits s + n\<rparr>"

definition RecordPatchTime :: "state \<Rightarrow> state" where
  "RecordPatchTime s = s\<lparr>patchTimes := Suc (patchTimes s)\<rparr>"

definition RecordScanTime :: "state \<Rightarrow> state" where
  "RecordScanTime s = s\<lparr>scanTimes := Suc (scanTimes s)\<rparr>"

section \<open>Staged and empty-repository scans\<close>

text \<open>\<open>time.Unix(0, 0).UTC()\<close>, and the zero value of \<open>time.Time\<close> (1 January of year
  1, UTC).\<close>

definition epochUTC :: gotime where
  "epochUTC = \<lparr>unixSec = 0, unixNsec = 0, inUTC = True\<rparr>"

definition zeroTime :: gotime where
  "zeroTime = \<lparr>unixSec = - 62135596800, unixNsec = 0, inUTC = True\<rparr>"

definition STAGED :: string where
  "STAGED = ''***STAGED CHANGES***''"

text \<open>\<open>emptyCommit\<close>: the fields the literal does not name have their zero values.\<close>

definition emptyCommit :: commit where
  "emptyCommit =
     \<lparr>Hash = zeroHash,
      Author = \<lparr>sigName = [], sigEmail = [], sigWhen = epochUTC\<rparr>,
      Committer = \<lparr>sigName = [], sigEmail = [], sigWhen = zeroTime\<rparr>,
      Message = STAGED,
      TreeHash = zeroHash,
      ParentHashes = []\<rparr>"

text \<open>The loop of \<open>scanEmpty\<close> over the worktree status.\<close>

fun scanEmptyFiles :: "repo \<Rightarrow> string list \<Rightarrow> state \<Rightarrow> (error + unit) exec \<times> state" where
  "scanEmptyFiles r [] s = (Return (Inr ()), s)"
| "scanEmptyFiles r (fn # fns) s =
     (case wtOpen r fn of
        Inl _ \<Rightarrow> scanEmptyFiles r fns s
      | Inr workTreeFile \<Rightarrow>
          (case wtCopy workTreeFile of
             Inl err \<Rightarrow> (Return (Inl err), s)
           | Inr content \<Rightarrow>
               (case CheckRules r
                       \<lparr>Commit = emptyCommit, Patch = [], Content = content,
                        FilePath = wtName workTreeFile, Operation = OpEqual,
                        scanType = uncommittedScan\<rparr> s of
                  (Return _, s1) \<Rightarrow> scanEmptyFiles r fns s1
                | (Panic, s1) \<Rightarrow> (Panic, s1)
                | (Terminated, s1) \<Rightarrow> (Terminated, s1))))"

definition scanEmpty :: "repo \<Rightarrow> state \<Rightarrow> (error + unit) exec \<times> state" where
  "scanEmpty r s =
     (case Worktree r of
        Some err \<Rightarrow> (Return (Inl err), s)
      | None \<Rightarrow>
          (case wtStatus r of
             Inl err \<Rightarrow> (Return (Inl err), s)
           | Inr status \<Rightarrow>
               (case scanEmptyFiles r status s of
                  (Return (Inr _), s1) \<Rightarrow> (Return (Inr ()), RecordScanTime s1)
                | res \<Rightarrow> res)))"

text \<open>The loop of \<open>getStagedChanges\<close> over the lines of the porcelain output:
  \<open>fileStatusAndName[1]\<close> panics (index out of range) when the split has one
  element.\<close>

fun stagedFilesLoop :: "string list \<Rightarrow> string list \<Rightarrow> string list exec" where
  "stagedFilesLoop [] stagedFiles = Return stagedFiles"
| "stagedFilesLoop (fileString # rest) stagedFiles =
     (if length fileString \<noteq> 0 then
        (let fileStatusAndName = splitOn TAB fileString in
         if length fileStatusAndName > 0 then
           (if 1 < length fileStatusAndName
            then stagedFilesLoop rest (stagedFiles @ [fileStatusAndName ! 1])
            else Panic)
         else stagedFilesLoop rest stagedFiles)
      else stagedFilesLoop rest stagedFiles)"

text \<open>\<open>getStagedChanges\<close>: \<open>log.Fatal\<close> ends the process when the command fails, so the
  error returned beside the file list is always nil. The line printed to standard
  output is not modelled.\<close>

definition getStagedChanges :: "repo \<Rightarrow> (string list \<times> error option) exec" where
  "getStagedChanges r =
     (case gitDiffCached r of
        Inl _ \<Rightarrow> Terminated
      | Inr output \<Rightarrow>
          (case stagedFilesLoop (splitOn LF output) [] of
             Return stagedFiles \<Rightarrow> Return (stagedFiles, None)
           | Panic \<Rightarrow> Panic
           | Terminated \<Rightarrow> Terminated))"

text \<open>The HEAD commit with the staged defaults written into it (the five assignments
  of \<open>scanUncommitted\<close>).\<close>

definition stagedCommit :: "commit \<Rightarrow> commit" where
  "stagedCommit c =
     c\<lparr>Hash := zeroHash, Message := STAGED,
       Author := (Author c)\<lparr>sigName := [], sigEmail := [], sigWhen := epochUTC\<rparr>\<rparr>"

text \<open>The loop that builds \<open>diffContents\<close>: \<open>fmt.Sprintf("%s\n", d.Text)\<close> is appended
  for each insertion.\<close>

fun diffInsertions :: "diff list \<Rightarrow> string \<Rightarrow> string" where
  "diffInsertions [] diffContents = diffContents"
| "diffInsertions (d # ds) diffContents =
     (if diffType d = DiffInsert
      then diffInsertions ds (diffContents @ diffText d @ [LF])
      else diffInsertions ds diffContents)"

text \<open>The previous contents and the file name of a staged file: a file that
  \<open>prevTree.File\<close> does not find has empty previous contents.\<close>

definition prevFileOf :: "repo \<Rightarrow> string \<Rightarrow> wt_file \<Rightarrow> error + (string \<times> string)" where
  "prevFileOf r fn workTreeFile =
     (case treeFile r fn of
        Inl _ \<Rightarrow> Inr ([], wtName workTreeFile)
      | Inr prevFile \<Rightarrow>
          (case treeContents prevFile of
             Inl err \<Rightarrow> Inl err
           | Inr prevFileContents \<Rightarrow>
               Inr (prevFileContents,
                    if wtName workTreeFile = [] then treeName prevFile
                    else wtName workTreeFile)))"

definition stagedContent :: "repo \<Rightarrow> string \<Rightarrow> string \<Rightarrow> string" where
  "stagedContent r prevFileContents currFileContents =
     diffInsertions (DiffCleanupSemantic r (DiffMain r prevFileContents currFileContents)) []"

text \<open>The loop of \<open>scanUncommitted\<close> over the staged files.\<close>

fun scanStagedFiles ::
  "repo \<Rightarrow> commit \<Rightarrow> string list \<Rightarrow> state \<Rightarrow> (error + unit) exec \<times> state" where
  "scanStagedFiles r c [] s = (Return (Inr ()), s)"
| "scanStagedFiles r c (fn # fns) s =
     (case wtOpen r fn of
        Inl _ \<Rightarrow> scanStagedFiles r c fns s
      | Inr workTreeFile \<Rightarrow>
          (case wtCopy workTreeFile of
             Inl err \<Rightarrow> (Return (Inl err), s)
           | Inr currFileContents \<Rightarrow>
               (case prevFileOf r fn workTreeFile of
                  Inl err \<Rightarrow> (Return (Inl err), s)
                | Inr (prevFileContents, filename) \<Rightarrow>
                    (case CheckRules r
                            \<lparr>Commit = c, Patch = [],
                             Content = stagedContent r prevFileContents currFileContents,
                             FilePath = filename, Operation = OpEqual,
                             scanType = uncommittedScan\<rparr> s of
                       (Return _, s1) \<Rightarrow> scanStagedFiles r c fns s1
                     | (Panic, s1) \<Rightarrow> (Panic, s1)
                     | (Terminated, s1) \<Rightarrow> (Terminated, s1)))))"

text \<open>\<open>scanUncommitted\<close> from the point where HEAD resolved to commit \<open>c0\<close>.\<close>

definition scanStaged :: "repo \<Rightarrow> commit \<Rightarrow> state \<Rightarrow> (error + unit) exec \<times> state" where
  "scanStaged r c0 s =
     (let c = stagedCommit c0 in
      case Tree r c of
        Some err \<Rightarrow> (Return (Inl err), s)
      | None \<Rightarrow>
          (case Worktree r of
             Some err \<Rightarrow> (Return (Inl err), s)
           | None \<Rightarrow>
               (case getStagedChanges r of
                  Panic \<Rightarrow> (Panic, s)
                | Terminated \<Rightarrow> (Terminated, s)
                | Return (status, err) \<Rightarrow>
                    (case scanStagedFiles r c status s of
                       (Return (Inr _), s1) \<Rightarrow>
                         (case err of
                            Some e \<Rightarrow> (Return (Inl e), s1)
                          | None \<Rightarrow> (Return (Inr ()), RecordScanTime s1))
                     | res \<Rightarrow> res))))"

definition scanUncommitted :: "repo \<Rightarrow> state \<Rightarrow> (error + unit) exec \<times> state" where
  "scanUncommitted r s =
     (case (if OptRepoConfig (Opts r)
            then (case loadRepoConfig r of
                    Inl err \<Rightarrow> Inl err
                  | Inr cfg \<Rightarrow> Inr (s\<lparr>config := cfg\<rparr>))
            else Inr s) of
        Inl err \<Rightarrow> (Return (Inl err), s)
      | Inr s0 \<Rightarrow>
          (case setupTimeout r of
             Some err \<Rightarrow> (Return (Inl err), s0)
           | None \<Rightarrow>
               (case Head r of
                  Inl err \<Rightarrow>
                    (if err = ErrReferenceNotFound then scanEmpty r s0
                     else (Return (Inl err), s0))
                | Inr h \<Rightarrow>
                    (case CommitObject r h of
                       Inl err \<Rightarrow> (Return (Inl err), s0)
                     | Inr c0 \<Rightarrow> scanStaged r c0 s0))))"

section \<open>Scanning one commit\<close>

text \<open>The inner loop of \<open>scanPatch\<close> over the chunks of one file patch. The source
  keeps one bundle and overwrites its content, operation and file path before each
  call of the matcher; the bundle recorded is its value at that call.\<close>

fun scanChunks ::
  "repo \<Rightarrow> commit \<Rightarrow> string \<Rightarrow> file_patch \<Rightarrow> chunk list \<Rightarrow> state \<Rightarrow> unit exec \<times> state" where
  "scanChunks r c ptext f [] s = (Return (), s)"
| "scanChunks r c ptext f (ch # chs) s =
     (if chunkType ch = OpAdd \<or> (OptDeletion (Opts r) \<and> chunkType ch = OpDelete) then
        (case CheckRules r
                \<lparr>Commit = c, Patch = ptext, Content = chunkContent ch,
                 FilePath =
                   (case fromPath f of
                      Some p \<Rightarrow> p
                    | None \<Rightarrow> (case toPath f of Some p \<Rightarrow> p | None \<Rightarrow> ''???'')),
                 Operation = chunkType ch, scanType = patchScan\<rparr> s of
           (Return _, s1) \<Rightarrow> scanChunks r c ptext f chs s1
         | (Panic, s1) \<Rightarrow> (Panic, s1)
         | (Terminated, s1) \<Rightarrow> (Terminated, s1))
      else scanChunks r c ptext f chs s)"

text \<open>The outer loop of \<open>scanPatch\<close> over the file patches.\<close>

fun scanFilePatches ::
  "repo \<Rightarrow> commit \<Rightarrow> string \<Rightarrow> file_patch list \<Rightarrow> state \<Rightarrow> unit exec \<times> state" where
  "scanFilePatches r c ptext [] s = (Return (), s)"
| "scanFilePatches r c ptext (f # fs) s =
     (let (t, s1) = timeoutReached r s in
      if t then (Return (), s1)
      else if IsBinary f then scanFilePatches r c ptext fs s1
      else
        (case scanChunks r c ptext f (Chunks f) s1 of
           (Return _, s2) \<Rightarrow> scanFilePatches r c ptext fs s2
         | (Panic, s2) \<Rightarrow> (Panic, s2)
         | (Terminated, s2) \<Rightarrow> (Terminated, s2)))"

text \<open>\<open>scanPatch\<close>: \<open>patch.String()\<close> on a nil patch dereferences nil and panics.\<close>

definition scanPatch :: "repo \<Rightarrow> patch option \<Rightarrow> commit \<Rightarrow> state \<Rightarrow> unit exec \<times> state" where
  "scanPatch r patch c s =
     (case patch of
        None \<Rightarrow> (Panic, s)
      | Some p \<Rightarrow> scanFilePatches r c (patchString p) (FilePatches p) s)"

text \<open>The callback of \<open>fIter.ForEach\<close> in \<open>scanFilesAtCommit\<close>, run over the files
  of the commit: a nil result moves on to the next file, an error ends the iteration
  with that error.\<close>

fun scanFiles ::
  "repo \<Rightarrow> commit \<Rightarrow> commit_file list \<Rightarrow> state \<Rightarrow> (error + unit) exec \<times> state" where
  "scanFiles r c [] s = (Return (Inr ()), s)"
| "scanFiles r c (f # fs) s =
     (let (bin, err) = fileIsBinary f in
      if bin then scanFiles r c fs s
      else
        (let (t, s1) = timeoutReached r s in
         if t then scanFiles r c fs s1
         else
           (case err of
              Some e \<Rightarrow> (Return (Inl e), s1)
            | None \<Rightarrow>
                (case fileContents f of
                   Inl e \<Rightarrow> (Return (Inl e), s1)
                 | Inr content \<Rightarrow>
                     (case CheckRules r
                             \<lparr>Commit = c, Patch = [], Content = content,
                              FilePath = fileName f, Operation = OpAdd,
                              scanType = commitScan\<rparr> s1 of
                        (Return _, s2) \<Rightarrow> scanFiles r c fs s2
                      | (Panic, s2) \<Rightarrow> (Panic, s2)
                      | (Terminated, s2) \<Rightarrow> (Terminated, s2))))))"

definition scanFilesAtCommit :: "repo \<Rightarrow> commit \<Rightarrow> state \<Rightarrow> (error + unit) exec \<times> state" where
  "scanFilesAtCommit r c s =
     (case Files r c of
        Inl err \<Rightarrow> (Return (Inl err), s)
      | Inr fIter \<Rightarrow> scanFiles r c fIter s)"

text \<open>The callback of \<open>c.Parents().ForEach\<close> in \<open>scanCommitPatches\<close>. Its deferred
  function recovers a panic of patch generation or of \<open>scanPatch\<close>; the callback then
  returns the zero value of its result, nil.\<close>

definition patchParent ::
  "repo \<Rightarrow> commit \<Rightarrow> commit option \<Rightarrow> state \<Rightarrow> (error + unit) exec \<times> state" where
  "patchParent r c parent s =
     (let (t, s1) = timeoutReached r s in
      if t then (Return (Inr ()), s1)
      else
        (case parent of
           None \<Rightarrow> (Return (Inr ()), s1)
         | Some p \<Rightarrow>
             (case GenPatch r p c of
                PatchPanics \<Rightarrow> (Return (Inr ()), s1)
              | PatchReturns patch err \<Rightarrow>
                  (case err of
                     Some _ \<Rightarrow> (Return (Inl ErrCouldNotGeneratePatch), s1)
                   | None \<Rightarrow>
                       (case scanPatch r patch c (RecordPatchTime s1) of
                          (Return _, s2) \<Rightarrow> (Return (Inr ()), s2)
                        | (Panic, s2) \<Rightarrow> (Return (Inr ()), s2)
                        | (Terminated, s2) \<Rightarrow> (Terminated, s2))))))"

text \<open>\<open>c.Parents().ForEach\<close>: the iterator walks \<open>c.ParentHashes\<close> and looks each hash
  up in the object store; a failed lookup ends the iteration with its error, the
  callback's \<open>ErrStop\<close> ends it with nil, any other error of the callback ends it
  with that error.\<close>

fun parentsForEach ::
  "repo \<Rightarrow> commit \<Rightarrow> hash list \<Rightarrow> state \<Rightarrow> (error + unit) exec \<times> state" where
  "parentsForEach r c [] s = (Return (Inr ()), s)"
| "parentsForEach r c (h # hs) s =
     (case CommitObject r h of
        Inl err \<Rightarrow> (Return (Inl err), s)
      | Inr p \<Rightarrow>
          (case patchParent r c (Some p) s of
             (Return (Inr _), s1) \<Rightarrow> parentsForEach r c hs s1
           | (Return (Inl err), s1) \<Rightarrow>
               (Return (if err = ErrStop then Inr () else Inl err), s1)
           | (Panic, s1) \<Rightarrow> (Panic, s1)
           | (Terminated, s1) \<Rightarrow> (Terminated, s1)))"

definition scanCommitPatches :: "repo \<Rightarrow> commit \<Rightarrow> state \<Rightarrow> (error + unit) exec \<times> state" where
  "scanCommitPatches r c s =
     (if length (ParentHashes c) = 0 then
        (case scanFilesAtCommit r c s of
           (Return (Inl err), s1) \<Rightarrow> (Return (Inl err), s1)
         | (Return (Inr _), s1) \<Rightarrow> parentsForEach r c (ParentHashes c) s1
         | (Panic, s1) \<Rightarrow> (Panic, s1)
         | (Terminated, s1) \<Rightarrow> (Terminated, s1))
      else parentsForEach r c (ParentHashes c) s)"

text \<open>\<open>scanCommit\<close>: the commit counter is incremented before the commit is looked
  up.\<close>

definition scanCommit ::
  "string \<Rightarrow> repo \<Rightarrow> (repo \<Rightarrow> commit \<Rightarrow> state \<Rightarrow> (error + unit) exec \<times> state) \<Rightarrow> state
     \<Rightarrow> (error + unit) exec \<times> state" where
  "scanCommit commit r f s =
     (case (if commit = ''latest''
            then (case Head r of Inl err \<Rightarrow> Inl err | Inr h \<Rightarrow> Inr h)
            else Inr commit) of
        Inl err \<Rightarrow> (Return (Inl err), s)
      | Inr commit' \<Rightarrow>
          (let s1 = IncrementCommits 1 s in
           case CommitObject r (NewHash r commit') of
             Inl err \<Rightarrow> (Return (Inl err), s1)
           | Inr c \<Rightarrow> f r c s1))"

text \<open>The loop over a list of commit references (the \<open>Commits\<close> option and the lines
  of the commits file).\<close>

fun scanCommits :: "repo \<Rightarrow> string list \<Rightarrow> state \<Rightarrow> (error + unit) exec \<times> state" where
  "scanCommits r [] s = (Return (Inr ()), s)"
| "scanCommits r (c # cs) s =
     (case scanCommit c r scanCommitPatches s of
        (Return (Inr _), s1) \<Rightarrow> scanCommits r cs s1
      | res \<Rightarrow> res)"

section \<open>The history walk\<close>

text \<open>\<open>depthReached\<close> (the warning it logs is not modelled).\<close>

definition depthReached :: "repo \<Rightarrow> int \<Rightarrow> bool" where
  "depthReached r i = (OptDepth (Opts r) \<noteq> 0 \<and> OptDepth (Opts r) = i)"

text \<open>
  The worker goroutine: \<open>scanPatch\<close> runs, and the deferred function releases the
  semaphore slot and signals the wait group on every exit. It does not call
  \<open>recover\<close>: a panic of \<open>scanPatch\<close> leaves the goroutine unrecovered, which ends the
  process.

  The workers run concurrently with the walk: in the program \<open>go func\<close> returns at
  once and the callback goes on to the next commit while the worker runs. \<open>worker\<close> is
  the body of the goroutine from whatever state it runs in. \<open>handoff\<close> below runs the
  worker to its end at the point where the walk starts it, which is one of the
  schedules of the program (the slot the worker needs is then always free); what is
  proved about the walk through \<open>handoff\<close> does not depend on when the worker runs.
\<close>

definition worker :: "repo \<Rightarrow> patch option \<Rightarrow> commit \<Rightarrow> state \<Rightarrow> unit exec \<times> state" where
  "worker r patch c s =
     (case scanPatch r patch c s of
        (Return _, s1) \<Rightarrow> (Return (), s1\<lparr>sem := sem s1 - 1, wg := wg s1 - 1\<rparr>)
      | (Panic, s1) \<Rightarrow> (Terminated, s1\<lparr>sem := sem s1 - 1, wg := wg s1 - 1\<rparr>)
      | (Terminated, s1) \<Rightarrow> (Terminated, s1\<lparr>sem := sem s1 - 1, wg := wg s1 - 1\<rparr>))"

text \<open>\<open>wg.Add(1)\<close>, the acquisition of a slot, and the start of the worker.\<close>

definition handoff :: "repo \<Rightarrow> patch option \<Rightarrow> commit \<Rightarrow> state \<Rightarrow> unit exec \<times> state" where
  "handoff r patch c s =
     worker r patch c (s\<lparr>wg := Suc (wg s), sem := Suc (sem s), handoffs := handoffs s @ [c]\<rparr>)"

text \<open>The part of the walk's callback that runs under its deferred \<open>recover\<close>: a
  panic of patch generation makes the callback return nil. The error that \<open>Patch\<close>
  returns is logged and otherwise ignored.\<close>

definition walkPatch ::
  "repo \<Rightarrow> commit \<Rightarrow> commit option \<Rightarrow> int \<Rightarrow> state \<Rightarrow> (error + unit) exec \<times> int \<times> state" where
  "walkPatch r c parent cc s =
     (let (t, s1) = timeoutReached r s in
      if t then (Return (Inr ()), cc, s1)
      else
        (case parent of
           None \<Rightarrow> (Return (Inr ()), cc, s1)
         | Some p \<Rightarrow>
             (case GenPatch r p c of
                PatchPanics \<Rightarrow> (Return (Inr ()), cc, s1)
              | PatchReturns patch err \<Rightarrow>
                  (case handoff r patch c (RecordPatchTime s1) of
                     (Return _, s2) \<Rightarrow>
                       (Return (if Hash c = OptCommitTo (Opts r) then Inl ErrStop else Inr ()),
                        cc, s2)
                   | (Panic, s2) \<Rightarrow> (Terminated, cc, s2)
                   | (Terminated, s2) \<Rightarrow> (Terminated, cc, s2)))))"

text \<open>The callback of \<open>cIter.ForEach\<close> in \<open>Scan\<close>, with the commit counter \<open>cc\<close> it
  closes over.\<close>

definition walkCommit ::
  "repo \<Rightarrow> commit option \<Rightarrow> int \<Rightarrow> state \<Rightarrow> (error + unit) exec \<times> int \<times> state" where
  "walkCommit r co cc s =
     (case co of
        None \<Rightarrow> (Return (Inl ErrStop), cc, s)
      | Some c \<Rightarrow>
          (let (t, s1) = timeoutReached r s in
           if t \<or> depthReached r cc then (Return (Inl ErrStop), cc, s1)
           else if isCommitAllowListed (Hash c) (AllowlistCommits (config s1))
             then (Return (Inr ()), cc, s1)
           else if length (ParentHashes c) = 0 then
             (case scanFilesAtCommit r c s1 of
                (Return (Inl err), s2) \<Rightarrow> (Return (Inl err), cc + 1, s2)
              | (Return (Inr _), s2) \<Rightarrow> (Return (Inr ()), cc + 1, s2)
              | (Panic, s2) \<Rightarrow> (Panic, cc + 1, s2)
              | (Terminated, s2) \<Rightarrow> (Terminated, cc + 1, s2))
           else
             (case Parent0 r c of
                Inl err \<Rightarrow> (Return (Inl err), cc + 1, s1)
              | Inr parent \<Rightarrow> walkPatch r c parent (cc + 1) s1)))"

text \<open>\<open>cIter.ForEach\<close>: \<open>ErrStop\<close> from the callback ends the iteration with nil, any
  other error ends it with that error.\<close>

fun forEachCommit ::
  "repo \<Rightarrow> commit option list \<Rightarrow> int \<Rightarrow> state \<Rightarrow> (error + unit) exec \<times> int \<times> state" where
  "forEachCommit r [] cc s = (Return (Inr ()), cc, s)"
| "forEachCommit r (co # cs) cc s =
     (case walkCommit r co cc s of
        (Return (Inr _), cc1, s1) \<Rightarrow> forEachCommit r cs cc1 s1
      | (Return (Inl err), cc1, s1) \<Rightarrow>
          (Return (if err = ErrStop then Inr () else Inl err), cc1, s1)
      | (Panic, cc1, s1) \<Rightarrow> (Panic, cc1, s1)
      | (Terminated, cc1, s1) \<Rightarrow> (Terminated, cc1, s1))"

text \<open>The history mode of \<open>Scan\<close>: the result of \<open>ForEach\<close> is assigned to \<open>err\<close> and
  not read again; after \<open>wg.Wait()\<close> the scan time and the commits entered are
  recorded and nil is returned.\<close>

definition scanHistory :: "repo \<Rightarrow> state \<Rightarrow> (error + unit) exec \<times> state" where
  "scanHistory r s =
     (case getLogOptions r of
        Some err \<Rightarrow> (Return (Inl err), s)
      | None \<Rightarrow>
          (case Log r of
             Inl err \<Rightarrow> (Return (Inl err), s)
           | Inr cIter \<Rightarrow>
               (case forEachCommit r cIter 0 s of
                  (Return err, cc, s1) \<Rightarrow>
                    (Return (Inr ()), IncrementCommits cc (RecordScanTime s1))
                | (Panic, cc, s1) \<Rightarrow> (Panic, s1)
                | (Terminated, cc, s1) \<Rightarrow> (Terminated, s1))))"

text \<open>The mode selection of \<open>Scan\<close>.\<close>

definition scanModes :: "repo \<Rightarrow> state \<Rightarrow> (error + unit) exec \<times> state" where
  "scanModes r s =
     (if OptCommit (Opts r) \<noteq> [] then
        scanCommit (OptCommit (Opts r)) r scanCommitPatches s
      else if OptFilesAtCommit (Opts r) \<noteq> [] then
        scanCommit (OptFilesAtCommit (Opts r)) r scanFilesAtCommit s
      else if OptCommits (Opts r) \<noteq> [] then
        scanCommits r (splitOn (CHR '','') (OptCommits (Opts r))) s
      else if OptCommitsFile (Opts r) \<noteq> [] then
        (case openCommitsFile r of
           Inl err \<Rightarrow> (Return (Inl err), s)
         | Inr commitLines \<Rightarrow> scanCommits r commitLines s)
      else scanHistory r s)"

text \<open>\<open>Scan\<close>: the deferred release of the cancel handle runs on every exit of the
  function, a return or a panic.\<close>

definition Scan :: "repo \<Rightarrow> state \<Rightarrow> (error + unit) exec \<times> state" where
  "Scan r s =
     (case setupTimeout r of
        Some err \<Rightarrow> (Return (Inl err), s)
      | None \<Rightarrow>
          (let (res, s1) =
             (if RepositoryNil r then (Return (Inl (ErrRepoEmpty (Name r))), s)
              else
                (case (if OptRepoConfig (Opts r)
                       then (case loadRepoConfig r of
                               Inl err \<Rightarrow> Inl err
                             | Inr cfg \<Rightarrow> Inr (s\<lparr>config := cfg\<rparr>))
                       else Inr s) of
                   Inl err \<Rightarrow> (Return (Inl err), s)
                 | Inr s0 \<Rightarrow> scanModes r s0))
           in (res, if hasCancel r \<and> res \<noteq> Terminated then s1\<lparr>cancelled := True\<rparr> else s1)))"

section \<open>The properties in the words of the specification\<close>

text \<open>The sentinel commit of a staged scan: zero hash, the staged message, empty
  author name and email, and the Unix epoch in UTC as the author's time.\<close>

definition isSentinel :: "commit \<Rightarrow> bool" where
  "isSentinel c =
     (Hash c = replicate 40 (CHR ''0'') \<and> Message c = ''***STAGED CHANGES***'' \<and>
      sigName (Author c) = [] \<and> sigEmail (Author c) = [] \<and>
      unixSec (sigWhen (Author c)) = 0 \<and> unixNsec (sigWhen (Author c)) = 0 \<and>
      inUTC (sigWhen (Author c)))"

text \<open>The content of a staged bundle as the specification words it: the texts of the
  insertion segments, in order, each followed by a newline, concatenated.\<close>

definition insertionText :: "diff list \<Rightarrow> string" where
  "insertionText diffs =
     concat (map (\<lambda>d. diffText d @ [LF]) (filter (\<lambda>d. diffType d = DiffInsert) diffs))"

text \<open>The contents of a file at HEAD, the empty string when the tree of HEAD does not
  have it.\<close>

definition headContents :: "repo \<Rightarrow> string \<Rightarrow> error + string" where
  "headContents r fn =
     (case treeFile r fn of
        Inl _ \<Rightarrow> Inr []
      | Inr prevFile \<Rightarrow> treeContents prevFile)"

text \<open>Whether the worktree opens a file.\<close>

definition opens :: "repo \<Rightarrow> string \<Rightarrow> bool" where
  "opens r fn = (case wtOpen r fn of Inl _ \<Rightarrow> False | Inr _ \<Rightarrow> True)"

text \<open>A run from \<open>s\<close> to \<open>s'\<close> that keeps the configuration, the semaphore, the
  wait group and the manager's commit counter as they were, and hands the matcher only bundles that satisfy \<open>P\<close>.\<close>

definition dispatches :: "(Bundle \<Rightarrow> bool) \<Rightarrow> state \<Rightarrow> state \<Rightarrow> bool" where
  "dispatches P s s' =
     (config s' = config s \<and> sem s' = sem s \<and> wg s' = wg s \<and>
      mgrCommits s' = mgrCommits s \<and>
      (\<exists>bs. dispatched s' = dispatched s @ bs \<and> (\<forall>b\<in>set bs. P b)))"

text \<open>A bundle of the staged path for the commit \<open>c\<close> and the staged files \<open>fns\<close>:
  its content is the insertion text of the diff of one of the files that opens and
  reads.\<close>

definition stagedBundle :: "repo \<Rightarrow> commit \<Rightarrow> string list \<Rightarrow> Bundle \<Rightarrow> bool" where
  "stagedBundle r c fns b =
     (Commit b = c \<and> scanType b = uncommittedScan \<and>
      (\<exists>fn w cur prev. fn \<in> set fns \<and> wtOpen r fn = Inr w \<and> wtCopy w = Inr cur \<and>
         headContents r fn = Inr prev \<and>
         Content b = insertionText (DiffCleanupSemantic r (DiffMain r prev cur))))"

text \<open>A bundle of the empty-repository path for the worktree files \<open>fns\<close>: the full
  contents of one of the files that opens and reads, under that file's name.\<close>

definition emptyRepoBundle :: "repo \<Rightarrow> string list \<Rightarrow> Bundle \<Rightarrow> bool" where
  "emptyRepoBundle r fns b =
     (\<exists>fn w content. fn \<in> set fns \<and> wtOpen r fn = Inr w \<and> wtCopy w = Inr content \<and>
        b = \<lparr>Commit = emptyCommit, Patch = [], Content = content, FilePath = wtName w,
             Operation = OpEqual, scanType = uncommittedScan\<rparr>)"

text \<open>A bundle whose commit is not in the allowlist.\<close>

definition notAllowed :: "string list \<Rightarrow> Bundle \<Rightarrow> bool" where
  "notAllowed allowlist b = (\<not> isCommitAllowListed (Hash (Commit b)) allowlist)"

text \<open>The walk over a prefix of the log in which the callback returned nil for every
  commit: the counter and the state with which the walk arrives at the next commit.\<close>

fun walkPrefix :: "repo \<Rightarrow> commit option list \<Rightarrow> int \<Rightarrow> state \<Rightarrow> (int \<times> state) option" where
  "walkPrefix r [] cc s = Some (cc, s)"
| "walkPrefix r (co # cs) cc s =
     (case walkCommit r co cc s of
        (Return (Inr _), cc1, s1) \<Rightarrow> walkPrefix r cs cc1 s1
      | _ \<Rightarrow> None)"

text \<open>Every file of the commit can be listed and, unless binary, read.\<close>

definition filesReadable :: "repo \<Rightarrow> commit \<Rightarrow> bool" where
  "filesReadable r c =
     (case Files r c of
        Inl _ \<Rightarrow> False
      | Inr fs \<Rightarrow>
          (\<forall>f\<in>set fs. fst (fileIsBinary f) \<or>
             (snd (fileIsBinary f) = None \<and> (\<exists>content. fileContents f = Inr content))))"

text \<open>A walk over \<open>cs\<close> that nothing but the depth limit can end early: no timeout,
  no panic of the matcher, no nil commit, no commit whose hash is \<open>CommitTo\<close>, the
  files of every root commit readable, the first parent of every other commit
  resolved, and no nil patch returned by patch generation.\<close>

definition undisturbed :: "repo \<Rightarrow> commit option list \<Rightarrow> bool" where
  "undisturbed r cs =
     ((\<forall>n. \<not> timeoutAt r n) \<and> (\<forall>b. \<not> matcherPanics r b) \<and>
      (\<forall>co\<in>set cs.
         case co of
           None \<Rightarrow> False
         | Some c \<Rightarrow>
             Hash c \<noteq> OptCommitTo (Opts r) \<and>
             (if ParentHashes c = [] then filesReadable r c
              else (\<exists>parent. Parent0 r c = Inr parent \<and>
                      (\<forall>p err. parent = Some p \<longrightarrow> GenPatch r p c \<noteq> PatchReturns None err)))))"

text \<open>A commit of the log that the walk counts: it is not nil and not allowlisted.\<close>

definition entered :: "state \<Rightarrow> commit option \<Rightarrow> bool" where
  "entered s co =
     (case co of
        None \<Rightarrow> False
      | Some c \<Rightarrow> \<not> isCommitAllowListed (Hash c) (AllowlistCommits (config s)))"

section \<open>A small repository\<close>

text \<open>Three commits in a line, \<open>commitC\<close> the tip and \<open>commitA\<close> the root; a worktree
  with four names, one that does not open and one that cannot be read; a tree of HEAD
  with two files, one of them unreadable.\<close>

definition hashA :: hash where
  "hashA = ''a1a1a1a1a1a1a1a1a1a1a1a1a1a1a1a1a1a1a1a1''"

definition hashB :: hash where
  "hashB = ''b2b2b2b2b2b2b2b2b2b2b2b2b2b2b2b2b2b2b2b2''"

definition hashC :: hash where
  "hashC = ''c3c3c3c3c3c3c3c3c3c3c3c3c3c3c3c3c3c3c3c3''"

definition demoSig :: signature where
  "demoSig =
     \<lparr>sigName = ''dev'', sigEmail = ''dev@example.com'',
      sigWhen = \<lparr>unixSec = 1600000000, unixNsec = 0, inUTC = False\<rparr>\<rparr>"

definition commitA :: commit where
  "commitA =
     \<lparr>Hash = hashA, Author = demoSig, Committer = demoSig, Message = ''add x'',
      TreeHash = ''t1'', ParentHashes = []\<rparr>"

definition commitB :: commit where
  "commitB =
     \<lparr>Hash = hashB, Author = demoSig, Committer = demoSig, Message = ''change x'',
      TreeHash = ''t2'', ParentHashes = [hashA]\<rparr>"

definition commitC :: commit where
  "commitC =
     \<lparr>Hash = hashC, Author = demoSig, Committer = demoSig, Message = ''change x again'',
      TreeHash = ''t3'', ParentHashes = [hashB]\<rparr>"

definition demoPatch :: patch where
  "demoPatch =
     \<lparr>patchString = ''diff'',
      FilePatches =
        [\<lparr>IsBinary = False, fromPath = Some ''x.py'', toPath = Some ''x.py'',
          Chunks =
            [\<lparr>chunkContent = ''old'', chunkType = OpDelete\<rparr>,
             \<lparr>chunkContent = ''SECRET'', chunkType = OpAdd\<rparr>]\<rparr>]\<rparr>"

definition demoLookup :: "hash \<Rightarrow> error + commit" where
  "demoLookup h =
     (if h = hashA then Inr commitA
      else if h = hashB then Inr commitB
      else if h = hashC then Inr commitC
      else Inl (ErrOther ''object not found''))"

definition demoOpen :: "string \<Rightarrow> error + wt_file" where
  "demoOpen fn =
     (if fn = ''missing'' then Inl (ErrOther ''no such file'')
      else if fn = ''broken'' then
        Inr \<lparr>wtName = fn, wtCopy = Inl (ErrOther ''read error'')\<rparr>
      else if fn = ''foo.txt'' then
        Inr \<lparr>wtName = fn, wtCopy = Inr (''a'' @ [LF] @ ''SECRET'' @ [LF] @ ''b'' @ [LF])\<rparr>
      else Inr \<lparr>wtName = fn, wtCopy = Inr (''alpha'' @ [LF])\<rparr>)"

definition demoTreeFile :: "string \<Rightarrow> error + tree_file" where
  "demoTreeFile fn =
     (if fn = ''foo.txt'' then
        Inr \<lparr>treeName = fn, treeContents = Inr (''a'' @ [LF] @ ''b'' @ [LF])\<rparr>
      else if fn = ''bad.txt'' then
        Inr \<lparr>treeName = fn, treeContents = Inl (ErrOther ''blob unreadable'')\<rparr>
      else Inl (ErrOther ''file not found''))"

text \<open>A crude stand-in for the diff library: everything old deleted, everything new
  inserted.\<close>

definition demoDiff :: "string \<Rightarrow> string \<Rightarrow> diff list" where
  "demoDiff old new =
     (if old = [] then [] else [\<lparr>diffType = DiffDelete, diffText = old\<rparr>]) @
     (if new = [] then [] else [\<lparr>diffType = DiffInsert, diffText = new\<rparr>])"

definition demoOpts :: options where
  "demoOpts =
     \<lparr>OptCommit = [], OptFilesAtCommit = [], OptCommits = [], OptCommitsFile = [],
      OptCommitTo = [], OptDepth = 0, OptDeletion = False, OptRepoConfig = False\<rparr>"

definition demoRepo :: repo where
  "demoRepo =
     \<lparr>Name = ''demo'', Opts = demoOpts, setupTimeout = None, hasCancel = True,
      RepositoryNil = False, loadRepoConfig = Inr \<lparr>AllowlistCommits = []\<rparr>,
      Head = Inr hashC, CommitObject = demoLookup,
      Parent0 =
        (\<lambda>c. case ParentHashes c of
               [] \<Rightarrow> Inl (ErrOther ''parent not found'')
             | h # _ \<Rightarrow> (case demoLookup h of Inl e \<Rightarrow> Inl e | Inr p \<Rightarrow> Inr (Some p))),
      NewHash = (\<lambda>s. s), getLogOptions = None,
      Log = Inr [Some commitC, Some commitB, Some commitA],
      Files =
        (\<lambda>c. Inr [\<lparr>fileName = ''x.py'', fileIsBinary = (False, None),
                   fileContents = Inr ''AKIA''\<rparr>]),
      GenPatch = (\<lambda>p c. PatchReturns (Some demoPatch) None),
      timeoutAt = (\<lambda>n. False), matcherPanics = (\<lambda>b. False),
      openCommitsFile = Inr [hashA], Worktree = None,
      wtStatus = Inr [''a.txt'', ''missing'', ''b.txt''],
      wtOpen = demoOpen, Tree = (\<lambda>c. None), treeFile = demoTreeFile,
      gitDiffCached = Inr (''M'' @ [TAB] @ ''foo.txt'' @ [LF] @ ''A'' @ [TAB] @ ''new.txt'' @ [LF]),
      DiffMain = demoDiff, DiffCleanupSemantic = (\<lambda>ds. ds)\<rparr>"

text \<open>Variants: the files of no commit can be listed; no first parent resolves; the
  matcher panics on every bundle; patch generation panics on \<open>commitB\<close>; the timeout has
  fired.\<close>

definition demoNoTree :: repo where
  "demoNoTree = demoRepo\<lparr>Files := (\<lambda>c. Inl (ErrOther ''tree not found''))\<rparr>"

definition demoNoParent :: repo where
  "demoNoParent = demoRepo\<lparr>Parent0 := (\<lambda>c. Inl (ErrOther ''parent not found''))\<rparr>"

definition demoPanicky :: repo where
  "demoPanicky = demoRepo\<lparr>matcherPanics := (\<lambda>b. True)\<rparr>"

definition demoPatchPanics :: repo where
  "demoPatchPanics =
     demoRepo\<lparr>GenPatch := (\<lambda>p c. if Hash c = hashB then PatchPanics
                                    else PatchReturns (Some demoPatch) None)\<rparr>"

definition demoTimedOut :: repo where
  "demoTimedOut = demoRepo\<lparr>timeoutAt := (\<lambda>n. True)\<rparr>"

text \<open>Further variants: every lookup in the tree of HEAD fails with an input/output
  error; patch generation returns a nil patch and an error.\<close>

definition demoTreeError :: repo where
  "demoTreeError = demoRepo\<lparr>treeFile := (\<lambda>fn. Inl (ErrOther ''input/output error''))\<rparr>"

definition demoPatchError :: repo where
  "demoPatchError =
     demoRepo\<lparr>GenPatch := (\<lambda>p c. PatchReturns None (Some (ErrOther ''object not found'')))\<rparr>"

definition demoState :: state where
  "demoState =
     \<lparr>config = \<lparr>AllowlistCommits = []\<rparr>, dispatched = [], handoffs = [], polls = 0,
      mgrCommits = 0, patchTimes = 0, scanTimes = 0, sem = 0, wg = 0, cancelled = False\<rparr>"

section \<open>Runs that dispatch bundles\<close>

lemma dispatches_refl: "dispatches P s s"
  by (simp add: dispatches_def)

lemma dispatches_trans:
  "dispatches P s s1 \<Longrightarrow> dispatches P s1 s2 \<Longrightarrow> dispatches P s s2"
  unfolding dispatches_def by fastforce

lemma dispatches_mono:
  "dispatches P s s' \<Longrightarrow> (\<And>b. P b \<Longrightarrow> Q b) \<Longrightarrow> dispatches Q s s'"
  unfolding dispatches_def by fastforce

lemma dispatches_check:
  "CheckRules r b s = (x, s1) \<Longrightarrow> P b \<Longrightarrow> dispatches P s1 s2 \<Longrightarrow> dispatches P s s2"
  unfolding dispatches_def CheckRules_def by fastforce

lemma dispatches_check0:
  "CheckRules r b s = (x, s1) \<Longrightarrow> P b \<Longrightarrow> dispatches P s s1"
  using dispatches_check dispatches_refl by blast

lemma dispatches_poll:
  "timeoutReached r s = (t, s1) \<Longrightarrow> dispatches P s1 s2 \<Longrightarrow> dispatches P s s2"
  unfolding dispatches_def timeoutReached_def by fastforce

lemma dispatches_poll0:
  "timeoutReached r s = (t, s1) \<Longrightarrow> dispatches P s s1"
  using dispatches_poll dispatches_refl by blast

lemma dispatches_bundles:
  "dispatches P s s' \<Longrightarrow> \<exists>bs. dispatched s' = dispatched s @ bs \<and> (\<forall>b\<in>set bs. P b)"
  by (simp add: dispatches_def)

lemma dispatches_RecordScanTime: "dispatches P s s' \<Longrightarrow> dispatches P s (RecordScanTime s')"
  by (simp add: dispatches_def RecordScanTime_def)

lemma dispatches_config: "dispatches P (s\<lparr>config := cfg\<rparr>) s' \<Longrightarrow>
   \<exists>bs. dispatched s' = dispatched s @ bs \<and> (\<forall>b\<in>set bs. P b)"
  by (simp add: dispatches_def)

section \<open>Staged and empty-repository scans: proofs\<close>

lemma diffInsertions_insertionText: "diffInsertions ds acc = acc @ insertionText ds"
  by (induction ds arbitrary: acc) (simp_all add: insertionText_def)

lemma stagedContent_insertionText:
  "stagedContent r prev cur = insertionText (DiffCleanupSemantic r (DiffMain r prev cur))"
  by (simp add: stagedContent_def diffInsertions_insertionText)

lemma prevFileOf_headContents:
  "prevFileOf r fn w = Inr (prev, name) \<Longrightarrow> headContents r fn = Inr prev"
  by (auto simp: prevFileOf_def headContents_def split: sum.splits)

lemma isSentinel_emptyCommit: "isSentinel emptyCommit"
  by (simp add: isSentinel_def emptyCommit_def zeroHash_def STAGED_def epochUTC_def)

lemma isSentinel_stagedCommit: "isSentinel (stagedCommit c)"
  by (simp add: isSentinel_def stagedCommit_def zeroHash_def STAGED_def epochUTC_def)

lemma scanEmptyFiles_dispatches:
  "dispatches (\<lambda>b. Commit b = emptyCommit \<and> scanType b = uncommittedScan) s
     (snd (scanEmptyFiles r fns s))"
  by (induction fns arbitrary: s)
     (auto simp: dispatches_refl split: sum.splits prod.splits exec.splits
           intro: dispatches_check dispatches_check0)

lemma stagedBundle_Cons: "stagedBundle r c fns b \<Longrightarrow> stagedBundle r c (fn # fns) b"
  unfolding stagedBundle_def by auto

lemma scanStagedFiles_dispatches:
  "dispatches (stagedBundle r c fns) s (snd (scanStagedFiles r c fns s))"
proof (induction fns arbitrary: s)
  case Nil
  show ?case by (simp add: dispatches_refl)
next
  case (Cons fn fns)
  have IH: "dispatches (stagedBundle r c (fn # fns)) s' (snd (scanStagedFiles r c fns s'))" for s'
    using Cons.IH [of s'] stagedBundle_Cons dispatches_mono by blast
  show ?case
  proof (cases "wtOpen r fn")
    case (Inl e)
    then show ?thesis using IH [of s] by simp
  next
    case op: (Inr w)
    show ?thesis
    proof (cases "wtCopy w")
      case (Inl e)
      then show ?thesis using op by (simp add: dispatches_refl)
    next
      case cp: (Inr cur)
      show ?thesis
      proof (cases "prevFileOf r fn w")
        case (Inl e)
        then show ?thesis using op cp by (simp add: dispatches_refl)
      next
        case (Inr pn)
        obtain prev name where pn: "pn = (prev, name)" by (cases pn)
        let ?b = "\<lparr>Commit = c, Patch = [], Content = stagedContent r prev cur,
                    FilePath = name, Operation = OpEqual, scanType = uncommittedScan\<rparr>"
        have P: "stagedBundle r c (fn # fns) ?b"
          unfolding stagedBundle_def
          using op cp prevFileOf_headContents [of r fn w prev name] Inr pn
          by (auto simp: stagedContent_insertionText)
        obtain x s1 where ck: "CheckRules r ?b s = (x, s1)" by (cases "CheckRules r ?b s")
        show ?thesis
          using op cp Inr pn ck
            dispatches_check [where P = "stagedBundle r c (fn # fns)", OF ck P IH [of s1]]
            dispatches_check0 [where P = "stagedBundle r c (fn # fns)", OF ck P]
          by (cases x) auto
      qed
    qed
  qed
qed


lemma scanEmptyFiles_dispatchesD:
  "scanEmptyFiles r fns s = (x, s1) \<Longrightarrow>
   dispatches (\<lambda>b. Commit b = emptyCommit \<and> scanType b = uncommittedScan) s s1"
  using scanEmptyFiles_dispatches [of s r fns] by simp

lemma scanStagedFiles_dispatchesD:
  "scanStagedFiles r c fns s = (x, s1) \<Longrightarrow> dispatches (stagedBundle r c fns) s s1"
  using scanStagedFiles_dispatches [of r c fns s] by simp

lemma scanEmpty_dispatches:
  "dispatches (\<lambda>b. Commit b = emptyCommit \<and> scanType b = uncommittedScan) s (snd (scanEmpty r s))"
  unfolding scanEmpty_def
  by (auto simp: dispatches_refl split: option.splits sum.splits prod.splits exec.splits
       intro: dispatches_RecordScanTime scanEmptyFiles_dispatchesD)

lemma scanStaged_dispatches:
  "dispatches (\<lambda>b. \<exists>status err. getStagedChanges r = Return (status, err) \<and>
                  stagedBundle r (stagedCommit c0) status b) s (snd (scanStaged r c0 s))"
proof -
  let ?P = "\<lambda>b. \<exists>status err. getStagedChanges r = Return (status, err) \<and>
                  stagedBundle r (stagedCommit c0) status b"
  show ?thesis
    unfolding scanStaged_def Let_def
    by (auto simp: dispatches_refl split: option.splits sum.splits prod.splits exec.splits
         intro: dispatches_RecordScanTime scanStagedFiles_dispatchesD)
qed

lemma scanUncommitted_bundles:
  "\<exists>bs. dispatched (snd (scanUncommitted r s)) = dispatched s @ bs \<and>
     (\<forall>b\<in>set bs. Commit b = emptyCommit \<and> scanType b = uncommittedScan \<or>
        (\<exists>c0 status err. getStagedChanges r = Return (status, err) \<and>
            stagedBundle r (stagedCommit c0) status b))"
proof -
  let ?P = "\<lambda>b. Commit b = emptyCommit \<and> scanType b = uncommittedScan \<or>
        (\<exists>c0 status err. getStagedChanges r = Return (status, err) \<and>
            stagedBundle r (stagedCommit c0) status b)"
  have e: "dispatches ?P s' (snd (scanEmpty r s'))" for s'
    using scanEmpty_dispatches [of s' r] by (rule dispatches_mono) simp
  have g: "dispatches ?P s' (snd (scanStaged r c0 s'))" for s' c0
    using scanStaged_dispatches [of r c0 s'] by (rule dispatches_mono) blast
  have tail: "dispatches ?P s0
      (snd (case setupTimeout r of
             Some err \<Rightarrow> (Return (Inl err), s0)
           | None \<Rightarrow>
               (case Head r of
                  Inl err \<Rightarrow>
                    (if err = ErrReferenceNotFound then scanEmpty r s0
                     else (Return (Inl err), s0))
                | Inr h \<Rightarrow>
                    (case CommitObject r h of
                       Inl err \<Rightarrow> (Return (Inl err), s0)
                     | Inr c0 \<Rightarrow> scanStaged r c0 s0))))" for s0
    using e g by (auto simp: dispatches_refl split: option.splits sum.splits)
  show ?thesis
  proof (cases "OptRepoConfig (Opts r)")
    case False
    then show ?thesis
      using dispatches_bundles [OF tail [of s]] by (simp add: scanUncommitted_def)
  next
    case True
    show ?thesis
    proof (cases "loadRepoConfig r")
      case (Inl err)
      then show ?thesis using True by (simp add: scanUncommitted_def)
    next
      case (Inr cfg)
      then show ?thesis
        using True dispatches_config [OF tail [of "s\<lparr>config := cfg\<rparr>"]]
        by (simp add: scanUncommitted_def)
    qed
  qed
qed


lemmas demo_defs =
  demoTreeError_def demoPatchError_def
  demoNoTree_def demoNoParent_def demoPanicky_def demoPatchPanics_def demoTimedOut_def
  demoRepo_def demoOpts_def demoState_def demoOpen_def demoTreeFile_def demoDiff_def
  demoLookup_def demoPatch_def commitA_def commitB_def commitC_def hashA_def hashB_def
  hashC_def demoSig_def LF_def TAB_def

lemmas staged_defs =
  scanUncommitted_def scanStaged_def scanEmpty_def getStagedChanges_def CheckRules_def
  RecordScanTime_def prevFileOf_def stagedContent_def stagedCommit_def emptyCommit_def
  Let_def

text \<open>
  Claim C7. Every bundle that \<open>scanUncommitted\<close> hands to the matcher, on the staged
  path and on the empty-repository path alike, carries the sentinel commit: zero hash,
  the message \<open>***STAGED CHANGES***\<close>, empty author name and email, and the Unix epoch
  in UTC as the author's time; its scan type is \<open>uncommittedScan\<close>.
\<close>

theorem staged_bundles_carry_sentinel:
  "\<exists>bs. dispatched (snd (scanUncommitted r s)) = dispatched s @ bs \<and>
     (\<forall>b\<in>set bs. isSentinel (Commit b) \<and> scanType b = uncommittedScan)"
proof -
  obtain bs where bs: "dispatched (snd (scanUncommitted r s)) = dispatched s @ bs"
    and P: "\<forall>b\<in>set bs. Commit b = emptyCommit \<and> scanType b = uncommittedScan \<or>
        (\<exists>c0 status err. getStagedChanges r = Return (status, err) \<and>
            stagedBundle r (stagedCommit c0) status b)"
    using scanUncommitted_bundles [of r s] by blast
  have "isSentinel (Commit b) \<and> scanType b = uncommittedScan" if "b \<in> set bs" for b
  proof -
    from P that have "Commit b = emptyCommit \<and> scanType b = uncommittedScan \<or>
        (\<exists>c0. Commit b = stagedCommit c0 \<and> scanType b = uncommittedScan)"
      unfolding stagedBundle_def by blast
    then show ?thesis
      using isSentinel_emptyCommit isSentinel_stagedCommit by auto
  qed
  then show ?thesis using bs by blast
qed

theorem staged_bundles_carry_sentinel_witness:
  "map (isSentinel \<circ> Commit) (dispatched (snd (scanUncommitted demoRepo demoState)))
     = [True, True] \<and>
   map (isSentinel \<circ> Commit)
     (dispatched (snd (scanUncommitted (demoRepo\<lparr>Head := Inl ErrReferenceNotFound\<rparr>) demoState)))
     = [True, True]"
  using staged_bundles_carry_sentinel [of demoRepo demoState]
    staged_bundles_carry_sentinel [of "demoRepo\<lparr>Head := Inl ErrReferenceNotFound\<rparr>" demoState]
  by (simp add: demo_defs staged_defs isSentinel_def zeroHash_def STAGED_def epochUTC_def)








lemma scanEmptyFiles_skip:
  "scanEmptyFiles r (filter (opens r) fns) s = scanEmptyFiles r fns s"
  by (induction fns arbitrary: s)
     (auto simp: opens_def split: sum.splits prod.splits exec.splits)

lemma scanStagedFiles_skip:
  "scanStagedFiles r c (filter (opens r) fns) s = scanStagedFiles r c fns s"
  by (induction fns arbitrary: s)
     (auto simp: opens_def split: sum.splits prod.splits exec.splits)

lemma scanEmptyFiles_append:
  "fst (scanEmptyFiles r pre s) = Return (Inr ()) \<Longrightarrow>
   scanEmptyFiles r (pre @ rest) s = scanEmptyFiles r rest (snd (scanEmptyFiles r pre s))"
  by (induction pre arbitrary: s)
     (auto split: sum.splits prod.splits exec.splits)

lemma scanStagedFiles_append:
  "fst (scanStagedFiles r c pre s) = Return (Inr ()) \<Longrightarrow>
   scanStagedFiles r c (pre @ rest) s = scanStagedFiles r c rest (snd (scanStagedFiles r c pre s))"
  by (induction pre arbitrary: s)
     (auto split: sum.splits prod.splits exec.splits)

lemma scanEmpty_copy_error:
  assumes "Worktree r = None" and "wtStatus r = Inr (pre @ fn # post)"
    and "fst (scanEmptyFiles r pre s) = Return (Inr ())"
    and "wtOpen r fn = Inr w" and "wtCopy w = Inl e"
  shows "scanEmpty r s = (Return (Inl e), snd (scanEmptyFiles r pre s))"
  using assms scanEmptyFiles_append [OF assms(3), of "fn # post"]
  by (simp add: scanEmpty_def)

lemma scanStaged_copy_error:
  assumes "Tree r (stagedCommit c0) = None" and "Worktree r = None"
    and "getStagedChanges r = Return (pre @ fn # post, err)"
    and "fst (scanStagedFiles r (stagedCommit c0) pre s) = Return (Inr ())"
    and "wtOpen r fn = Inr w" and "wtCopy w = Inl e"
  shows "scanStaged r c0 s = (Return (Inl e), snd (scanStagedFiles r (stagedCommit c0) pre s))"
  using assms scanStagedFiles_append [OF assms(4), of "fn # post"]
  by (simp add: scanStaged_def)

lemma scanStaged_contents_error:
  assumes "Tree r (stagedCommit c0) = None" and "Worktree r = None"
    and "getStagedChanges r = Return (pre @ fn # post, err)"
    and "fst (scanStagedFiles r (stagedCommit c0) pre s) = Return (Inr ())"
    and "wtOpen r fn = Inr w" and "wtCopy w = Inr cur"
    and "treeFile r fn = Inr prevFile" and "treeContents prevFile = Inl e"
  shows "scanStaged r c0 s = (Return (Inl e), snd (scanStagedFiles r (stagedCommit c0) pre s))"
  using assms scanStagedFiles_append [OF assms(4), of "fn # post"]
  by (simp add: scanStaged_def prevFileOf_def)

lemma emptyRepoBundle_Cons: "emptyRepoBundle r fns b \<Longrightarrow> emptyRepoBundle r (fn # fns) b"
  unfolding emptyRepoBundle_def by auto

lemma scanEmptyFiles_bundles:
  "dispatches (emptyRepoBundle r fns) s (snd (scanEmptyFiles r fns s))"
proof (induction fns arbitrary: s)
  case Nil
  show ?case by (simp add: dispatches_refl)
next
  case (Cons fn fns)
  have IH: "dispatches (emptyRepoBundle r (fn # fns)) s' (snd (scanEmptyFiles r fns s'))" for s'
    using Cons.IH [of s'] emptyRepoBundle_Cons dispatches_mono by blast
  show ?case
  proof (cases "wtOpen r fn")
    case (Inl e)
    then show ?thesis using IH [of s] by simp
  next
    case op: (Inr w)
    show ?thesis
    proof (cases "wtCopy w")
      case (Inl e)
      then show ?thesis using op by (simp add: dispatches_refl)
    next
      case cp: (Inr content)
      let ?b = "\<lparr>Commit = emptyCommit, Patch = [], Content = content,
                  FilePath = wtName w, Operation = OpEqual, scanType = uncommittedScan\<rparr>"
      have P: "emptyRepoBundle r (fn # fns) ?b"
        unfolding emptyRepoBundle_def using op cp by auto
      obtain x s1 where ck: "CheckRules r ?b s = (x, s1)" by (cases "CheckRules r ?b s")
      show ?thesis
        using op cp ck
          dispatches_check [where P = "emptyRepoBundle r (fn # fns)", OF ck P IH [of s1]]
          dispatches_check0 [where P = "emptyRepoBundle r (fn # fns)", OF ck P]
        by (cases x) auto
    qed
  qed
qed

lemma scanStagedFiles_lookup_error:
  assumes "wtOpen r fn = Inr w" and "wtCopy w = Inr cur" and "treeFile r fn = Inl e'"
  shows "prevFileOf r fn w = Inr ([], wtName w) \<and>
         map Content (dispatched (snd (scanStagedFiles r c [fn] s))) =
           map Content (dispatched s) @
             [insertionText (DiffCleanupSemantic r (DiffMain r [] cur))] \<and>
         fst (scanStagedFiles r c [fn] s) \<in> {Return (Inr ()), Panic}"
proof -
  have p: "prevFileOf r fn w = Inr ([], wtName w)"
    using assms(3) by (simp add: prevFileOf_def)
  then show ?thesis
    using assms(1,2)
    by (simp add: CheckRules_def stagedContent_insertionText split: exec.splits)
qed

text \<open>
  Claim C9, as amended. In both loops a file that the worktree fails to open is
  skipped: the run is the run over the files that open, every bundle dispatched
  belongs to a file that opened and was read, and the next file is scanned. An error
  of copying the worktree contents (both paths) or of \<open>prevFile.Contents()\<close> (staged
  path) ends the scan, which returns that error; the files after it are not scanned.
  An error of the lookup \<open>prevTree.File\<close>, whatever its cause, does not end the scan:
  the file is scanned with empty previous contents.
\<close>

theorem staged_io_errors_skip_or_abort:
  "scanEmptyFiles r fns s = scanEmptyFiles r (filter (opens r) fns) s \<and>
   scanStagedFiles r c fns s = scanStagedFiles r c (filter (opens r) fns) s \<and>
   (\<exists>bs. dispatched (snd (scanEmptyFiles r fns s)) = dispatched s @ bs \<and>
      (\<forall>b\<in>set bs. emptyRepoBundle r fns b)) \<and>
   (\<exists>bs. dispatched (snd (scanStagedFiles r c fns s)) = dispatched s @ bs \<and>
      (\<forall>b\<in>set bs. stagedBundle r c fns b)) \<and>
   (Worktree r = None \<and> wtStatus r = Inr (pre @ fn # post) \<and>
    fst (scanEmptyFiles r pre s) = Return (Inr ()) \<and>
    wtOpen r fn = Inr w \<and> wtCopy w = Inl e \<longrightarrow>
      scanEmpty r s = (Return (Inl e), snd (scanEmptyFiles r pre s))) \<and>
   (Tree r (stagedCommit c0) = None \<and> Worktree r = None \<and>
    getStagedChanges r = Return (pre @ fn # post, err) \<and>
    fst (scanStagedFiles r (stagedCommit c0) pre s) = Return (Inr ()) \<and>
    wtOpen r fn = Inr w \<and>
    (wtCopy w = Inl e \<or>
     (\<exists>cur prevFile. wtCopy w = Inr cur \<and> treeFile r fn = Inr prevFile \<and>
        treeContents prevFile = Inl e)) \<longrightarrow>
      scanStaged r c0 s = (Return (Inl e), snd (scanStagedFiles r (stagedCommit c0) pre s))) \<and>
   (wtOpen r fn = Inr w \<and> wtCopy w = Inr cur \<and> treeFile r fn = Inl e' \<longrightarrow>
      prevFileOf r fn w = Inr ([], wtName w) \<and>
      map Content (dispatched (snd (scanStagedFiles r c [fn] s))) =
        map Content (dispatched s) @
          [insertionText (DiffCleanupSemantic r (DiffMain r [] cur))] \<and>
      fst (scanStagedFiles r c [fn] s) \<in> {Return (Inr ()), Panic})"
proof (intro conjI impI)
  show "scanEmptyFiles r fns s = scanEmptyFiles r (filter (opens r) fns) s"
    by (simp add: scanEmptyFiles_skip)
  show "scanStagedFiles r c fns s = scanStagedFiles r c (filter (opens r) fns) s"
    by (simp add: scanStagedFiles_skip)
  show "\<exists>bs. dispatched (snd (scanEmptyFiles r fns s)) = dispatched s @ bs \<and>
      (\<forall>b\<in>set bs. emptyRepoBundle r fns b)"
    using scanEmptyFiles_bundles by (rule dispatches_bundles)
  show "\<exists>bs. dispatched (snd (scanStagedFiles r c fns s)) = dispatched s @ bs \<and>
      (\<forall>b\<in>set bs. stagedBundle r c fns b)"
    using scanStagedFiles_dispatches by (rule dispatches_bundles)
next
  assume "Worktree r = None \<and> wtStatus r = Inr (pre @ fn # post) \<and>
    fst (scanEmptyFiles r pre s) = Return (Inr ()) \<and>
    wtOpen r fn = Inr w \<and> wtCopy w = Inl e"
  then show "scanEmpty r s = (Return (Inl e), snd (scanEmptyFiles r pre s))"
    using scanEmpty_copy_error by blast
next
  assume "Tree r (stagedCommit c0) = None \<and> Worktree r = None \<and>
    getStagedChanges r = Return (pre @ fn # post, err) \<and>
    fst (scanStagedFiles r (stagedCommit c0) pre s) = Return (Inr ()) \<and>
    wtOpen r fn = Inr w \<and>
    (wtCopy w = Inl e \<or>
     (\<exists>cur prevFile. wtCopy w = Inr cur \<and> treeFile r fn = Inr prevFile \<and>
        treeContents prevFile = Inl e))"
  then show "scanStaged r c0 s =
      (Return (Inl e), snd (scanStagedFiles r (stagedCommit c0) pre s))"
    using scanStaged_copy_error [of r c0 pre fn post err s w e]
      scanStaged_contents_error [of r c0 pre fn post err s w _ _ e]
    by blast
next
  assume a: "wtOpen r fn = Inr w \<and> wtCopy w = Inr cur \<and> treeFile r fn = Inl e'"
  show "prevFileOf r fn w = Inr ([], wtName w)"
    using a scanStagedFiles_lookup_error [of r fn w cur e' c s] by blast
  show "map Content (dispatched (snd (scanStagedFiles r c [fn] s))) =
        map Content (dispatched s) @
          [insertionText (DiffCleanupSemantic r (DiffMain r [] cur))]"
    using a scanStagedFiles_lookup_error [of r fn w cur e' c s] by blast
  show "fst (scanStagedFiles r c [fn] s) \<in> {Return (Inr ()), Panic}"
    using a scanStagedFiles_lookup_error [of r fn w cur e' c s] by blast
qed

theorem staged_io_errors_skip_or_abort_witness:
  "fst (scanEmpty demoRepo demoState) = Return (Inr ()) \<and>
   map FilePath (dispatched (snd (scanEmpty demoRepo demoState))) = [''a.txt'', ''b.txt''] \<and>
   scanEmptyFiles demoRepo [''a.txt'', ''missing'', ''b.txt''] demoState =
     scanEmptyFiles demoRepo [''a.txt'', ''b.txt''] demoState \<and>
   fst (scanEmpty (demoRepo\<lparr>wtStatus := Inr [''a.txt'', ''missing'', ''broken'', ''b.txt'']\<rparr>)
          demoState) = Return (Inl (ErrOther ''read error'')) \<and>
   map FilePath
     (dispatched (snd (scanEmpty
        (demoRepo\<lparr>wtStatus := Inr [''a.txt'', ''missing'', ''broken'', ''b.txt'']\<rparr>) demoState)))
     = [''a.txt''] \<and>
   fst (scanStaged
     (demoRepo\<lparr>gitDiffCached :=
        Inr (''M'' @ [TAB] @ ''missing'' @ [LF] @ ''M'' @ [TAB] @ ''foo.txt'' @ [LF] @
             ''M'' @ [TAB] @ ''bad.txt'' @ [LF] @ ''A'' @ [TAB] @ ''new.txt'' @ [LF])\<rparr>)
     commitC demoState) = Return (Inl (ErrOther ''blob unreadable'')) \<and>
   map FilePath
     (dispatched (snd (scanStaged
       (demoRepo\<lparr>gitDiffCached :=
          Inr (''M'' @ [TAB] @ ''missing'' @ [LF] @ ''M'' @ [TAB] @ ''foo.txt'' @ [LF] @
               ''M'' @ [TAB] @ ''bad.txt'' @ [LF] @ ''A'' @ [TAB] @ ''new.txt'' @ [LF])\<rparr>)
       commitC demoState)))
     = [''foo.txt''] \<and>
   fst (scanStagedFiles demoTreeError emptyCommit [''foo.txt''] demoState) = Return (Inr ()) \<and>
   map Content (dispatched (snd (scanStagedFiles demoTreeError emptyCommit [''foo.txt''] demoState)))
     = [''a'' @ [LF] @ ''SECRET'' @ [LF] @ ''b'' @ [LF, LF]]"
  using
    staged_io_errors_skip_or_abort
      [where r = demoRepo and s = demoState and fns = "[''a.txt'', ''missing'', ''b.txt'']"]
    staged_io_errors_skip_or_abort
      [where r = "demoRepo\<lparr>wtStatus := Inr [''a.txt'', ''missing'', ''broken'', ''b.txt'']\<rparr>"
         and s = demoState and pre = "[''a.txt'', ''missing'']" and fn = "''broken''"
         and post = "[''b.txt'']" and e = "ErrOther ''read error''"
         and w = "\<lparr>wtName = ''broken'', wtCopy = Inl (ErrOther ''read error'')\<rparr>"
         and fns = "[''a.txt'', ''missing'']"]
    staged_io_errors_skip_or_abort
      [where r = "demoRepo\<lparr>gitDiffCached :=
        Inr (''M'' @ [TAB] @ ''missing'' @ [LF] @ ''M'' @ [TAB] @ ''foo.txt'' @ [LF] @
             ''M'' @ [TAB] @ ''bad.txt'' @ [LF] @ ''A'' @ [TAB] @ ''new.txt'' @ [LF])\<rparr>"
         and s = demoState and pre = "[''missing'', ''foo.txt'']" and fn = "''bad.txt''"
         and post = "[''new.txt'']" and e = "ErrOther ''blob unreadable''"
         and w = "\<lparr>wtName = ''bad.txt'', wtCopy = Inr (''alpha'' @ [LF])\<rparr>"
         and c0 = commitC and err = None
         and fns = "[''missing'', ''foo.txt'']" and c = "stagedCommit commitC"]
    staged_io_errors_skip_or_abort
      [where r = demoTreeError and s = demoState and fn = "''foo.txt''" and c = emptyCommit
         and w = "\<lparr>wtName = ''foo.txt'',
                    wtCopy = Inr (''a'' @ [LF] @ ''SECRET'' @ [LF] @ ''b'' @ [LF])\<rparr>"
         and cur = "''a'' @ [LF] @ ''SECRET'' @ [LF] @ ''b'' @ [LF]"
         and e' = "ErrOther ''input/output error''" and fns = "[]"]
  by (simp add: demo_defs staged_defs opens_def)

text \<open>Claim C9 as stated fails for the lookup in the tree of HEAD: when
  \<open>prevTree.File\<close> fails with an input/output error for every staged file, the staged
  scan returns nil and both files are scanned, their whole contents taken as
  inserted.\<close>

theorem tree_lookup_error_does_not_abort:
  "treeFile demoTreeError ''foo.txt'' = Inl (ErrOther ''input/output error'') \<and>
   fst (scanUncommitted demoTreeError demoState) = Return (Inr ()) \<and>
   map FilePath (dispatched (snd (scanUncommitted demoTreeError demoState)))
     = [''foo.txt'', ''new.txt''] \<and>
   map Content (dispatched (snd (scanUncommitted demoTreeError demoState)))
     = [''a'' @ [LF] @ ''SECRET'' @ [LF] @ ''b'' @ [LF, LF], ''alpha'' @ [LF, LF]]"
  by (simp add: demo_defs staged_defs)

section \<open>Parsing the porcelain output\<close>

lemma length_splitOn: "length (splitOn sep s) = Suc (length (filter (\<lambda>c. c = sep) s))"
  by (induction s) (auto split: list.splits)

lemma splitOn_nonempty: "splitOn sep s \<noteq> []"
  by (induction s) (auto split: list.splits)

lemma splitOn_has_second: "1 < length (splitOn sep s) \<longleftrightarrow> sep \<in> set s"
  by (simp add: length_splitOn filter_empty_conv)

lemma stagedFilesLoop_char:
  "stagedFilesLoop ls acc =
     (if \<forall>l\<in>set ls. l \<noteq> [] \<longrightarrow> TAB \<in> set l
      then Return (acc @ map (\<lambda>l. splitOn TAB l ! 1) (filter (\<lambda>l. l \<noteq> []) ls))
      else Panic)"
proof (induction ls arbitrary: acc)
  case Nil
  show ?case by simp
next
  case (Cons l ls)
  show ?case
  proof (cases "l = []")
    case True
    then show ?thesis using Cons.IH [of acc] by auto
  next
    case False
    show ?thesis
    proof (cases "TAB \<in> set l")
      case True
      then have "1 < length (splitOn TAB l)" using splitOn_has_second [of TAB l] by simp
      then show ?thesis using False True Cons.IH [of "acc @ [splitOn TAB l ! 1]"]
        by (auto simp add: Let_def)
    next
      case nt: False
      then have "\<not> 1 < length (splitOn TAB l)" using splitOn_has_second [of TAB l] by simp
      then show ?thesis using False nt by (auto simp add: Let_def splitOn_nonempty)
    qed
  qed
qed

text \<open>
  Claim C10. \<open>getStagedChanges\<close> guards the index \<open>fileStatusAndName[1]\<close> with a length
  greater than zero, which every split has. Given the output of the porcelain command,
  it returns the names after the first tab of the non-empty lines exactly when every
  non-empty line contains a tab, and panics (index out of range) otherwise: any output
  with a non-empty line without a tab makes it panic.
\<close>

theorem getStagedChanges_total_iff_tabs:
  assumes "gitDiffCached r = Inr output"
  shows "getStagedChanges r =
     (if \<forall>line\<in>set (splitOn LF output). line \<noteq> [] \<longrightarrow> TAB \<in> set line
      then Return (map (\<lambda>line. splitOn TAB line ! 1)
                     (filter (\<lambda>line. line \<noteq> []) (splitOn LF output)), None)
      else Panic)"
  using assms by (auto simp add: getStagedChanges_def stagedFilesLoop_char)

theorem getStagedChanges_total_iff_tabs_witness:
  "getStagedChanges (demoRepo\<lparr>gitDiffCached := Inr (''M'' @ [TAB] @ ''foo.txt'' @ [LF] @ ''A new.txt'')\<rparr>)
     = Panic \<and>
   getStagedChanges (demoRepo\<lparr>gitDiffCached := Inr (''M'' @ [TAB] @ ''foo.txt'' @ [LF])\<rparr>)
     = Return ([''foo.txt''], None)"
  using
    getStagedChanges_total_iff_tabs
      [of "demoRepo\<lparr>gitDiffCached := Inr (''M'' @ [TAB] @ ''foo.txt'' @ [LF] @ ''A new.txt'')\<rparr>"
          "''M'' @ [TAB] @ ''foo.txt'' @ [LF] @ ''A new.txt''"]
    getStagedChanges_total_iff_tabs
      [of "demoRepo\<lparr>gitDiffCached := Inr (''M'' @ [TAB] @ ''foo.txt'' @ [LF])\<rparr>"
          "''M'' @ [TAB] @ ''foo.txt'' @ [LF]"]
  by (simp add: LF_def TAB_def)

section \<open>Scanning one commit: proofs\<close>

lemma scanChunks_dispatches:
  "dispatches (\<lambda>b. Commit b = c) s (snd (scanChunks r c pt f chs s))"
  by (induction chs arbitrary: s)
     (auto simp: dispatches_refl split: prod.splits exec.splits
           intro: dispatches_check dispatches_check0)

lemma scanFilePatches_dispatches:
  "dispatches (\<lambda>b. Commit b = c) s (snd (scanFilePatches r c pt fs s))"
proof (induction fs arbitrary: s)
  case Nil
  show ?case by (simp add: dispatches_refl)
next
  case (Cons f fs)
  obtain t s1 where p: "timeoutReached r s = (t, s1)" by (cases "timeoutReached r s")
  obtain x s2 where ch: "scanChunks r c pt f (Chunks f) s1 = (x, s2)"
    by (cases "scanChunks r c pt f (Chunks f) s1")
  have d1: "dispatches (\<lambda>b. Commit b = c) s s1"
    using p by (rule dispatches_poll0)
  have d2: "dispatches (\<lambda>b. Commit b = c) s1 s2"
    using scanChunks_dispatches [of c s1 r pt f "Chunks f"] ch by simp
  show ?case
    using p ch d1 dispatches_trans [OF d1 d2] dispatches_trans [OF d1 Cons.IH [of s1]]
      dispatches_trans [OF dispatches_trans [OF d1 d2] Cons.IH [of s2]]
    by (cases x) auto
qed

lemma scanPatch_dispatches:
  "dispatches (\<lambda>b. Commit b = c) s (snd (scanPatch r patch c s))"
  by (cases patch) (simp_all add: scanPatch_def dispatches_refl scanFilePatches_dispatches)

lemma scanFiles_dispatches:
  "dispatches (\<lambda>b. Commit b = c) s (snd (scanFiles r c fs s))"
proof (induction fs arbitrary: s)
  case Nil
  show ?case by (simp add: dispatches_refl)
next
  case (Cons f fs)
  obtain t s1 where p: "timeoutReached r s = (t, s1)" by (cases "timeoutReached r s")
  have d1: "dispatches (\<lambda>b. Commit b = c) s s1"
    using p by (rule dispatches_poll0)
  have step: "dispatches (\<lambda>b. Commit b = c) s s2"
    if "CheckRules r b s1 = (x, s2)" and "Commit b = c" for b x s2
    using dispatches_trans [OF d1 dispatches_check0 [where P = "\<lambda>b. Commit b = c", OF that]] .
  have step2: "dispatches (\<lambda>b. Commit b = c) s (snd (scanFiles r c fs s2))"
    if "CheckRules r b s1 = (x, s2)" and "Commit b = c" for b x s2
    using dispatches_trans [OF step [OF that] Cons.IH [of s2]] .
  show ?case
    using p d1 Cons.IH [of s] dispatches_trans [OF d1 Cons.IH [of s1]]
    by (auto split: prod.splits option.splits sum.splits exec.splits intro: step step2)
qed

lemma scanFilesAtCommit_dispatches:
  "dispatches (\<lambda>b. Commit b = c) s (snd (scanFilesAtCommit r c s))"
  by (cases "Files r c") (simp_all add: scanFilesAtCommit_def dispatches_refl scanFiles_dispatches)

text \<open>
  Claim C6. For a root commit (no parent hashes), \<open>scanCommitPatches\<close> is
  \<open>scanFilesAtCommit\<close>: the same result, the same bundles dispatched, the same state.
\<close>

theorem scanCommitPatches_root_is_scanFilesAtCommit:
  assumes "ParentHashes c = []"
  shows "scanCommitPatches r c s = scanFilesAtCommit r c s"
proof -
  obtain x s1 where run: "scanFilesAtCommit r c s = (x, s1)"
    by (cases "scanFilesAtCommit r c s")
  show ?thesis
  proof (cases x)
    case (Return res)
    then show ?thesis using assms run by (cases res) (simp_all add: scanCommitPatches_def)
  next
    case Panic
    then show ?thesis using assms run by (simp add: scanCommitPatches_def)
  next
    case Terminated
    then show ?thesis using assms run by (simp add: scanCommitPatches_def)
  qed
qed

lemmas commit_defs =
  scanCommitPatches_def scanFilesAtCommit_def scanPatch_def patchParent_def scanCommit_def
  timeoutReached_def CheckRules_def IncrementCommits_def RecordPatchTime_def
  RecordScanTime_def Let_def

theorem scanCommitPatches_root_is_scanFilesAtCommit_witness:
  "scanCommitPatches demoRepo commitA demoState = scanFilesAtCommit demoRepo commitA demoState \<and>
   map Content (dispatched (snd (scanCommitPatches demoRepo commitA demoState))) = [''AKIA''] \<and>
   fst (scanCommitPatches demoRepo commitA demoState) = Return (Inr ())"
  using scanCommitPatches_root_is_scanFilesAtCommit [of commitA demoRepo demoState]
  by (simp add: demo_defs commit_defs)

section \<open>The history walk: proofs\<close>

lemma handoff_dispatches:
  "dispatches (\<lambda>b. Commit b = c) s (snd (handoff r patch c s))"
proof -
  let ?s0 = "s\<lparr>wg := Suc (wg s), sem := Suc (sem s), handoffs := handoffs s @ [c]\<rparr>"
  obtain x s1 where run: "scanPatch r patch c ?s0 = (x, s1)"
    by (cases "scanPatch r patch c ?s0")
  have "dispatches (\<lambda>b. Commit b = c) ?s0 s1"
    using scanPatch_dispatches [of c ?s0 r patch] run by simp
  then have "dispatches (\<lambda>b. Commit b = c) s (s1\<lparr>sem := sem s1 - 1, wg := wg s1 - 1\<rparr>)"
    by (simp add: dispatches_def)
  then show ?thesis
    using run by (cases x) (simp_all add: handoff_def worker_def)
qed

lemma dispatches_RecordPatchTime:
  "dispatches P (RecordPatchTime s) s' \<Longrightarrow> dispatches P s s'"
  by (simp add: dispatches_def RecordPatchTime_def)

lemma walkPatch_dispatches:
  "dispatches (\<lambda>b. Commit b = c) s (snd (snd (walkPatch r c parent cc s)))"
proof -
  obtain t s1 where p: "timeoutReached r s = (t, s1)" by (cases "timeoutReached r s")
  have d1: "dispatches (\<lambda>b. Commit b = c) s s1"
    using p by (rule dispatches_poll0)
  have d2: "dispatches (\<lambda>b. Commit b = c) s s2"
    if "handoff r patch c (RecordPatchTime s1) = (x, s2)" for patch x s2
    using dispatches_trans [OF d1 dispatches_RecordPatchTime [OF handoff_dispatches]] that
    by (metis snd_conv)
  show ?thesis
    unfolding walkPatch_def
    using p d1
    by (auto split: option.splits patch_result.splits prod.splits exec.splits intro: d2)
qed

lemma walkCommit_dispatches:
  "dispatches (notAllowed (AllowlistCommits (config s))) s
     (snd (snd (walkCommit r co cc s)))"
proof (cases co)
  case None
  then show ?thesis by (simp add: walkCommit_def dispatches_refl)
next
  case (Some c)
  let ?P = "notAllowed (AllowlistCommits (config s))"
  obtain t s1 where p: "timeoutReached r s = (t, s1)" by (cases "timeoutReached r s")
  have d1: "dispatches ?P s s1"
    using p by (rule dispatches_poll0)
  have cfg: "config s1 = config s" using d1 by (simp add: dispatches_def)
  show ?thesis
  proof (cases "t \<or> depthReached r cc \<or>
                isCommitAllowListed (Hash c) (AllowlistCommits (config s))")
    case True
    then show ?thesis using Some p d1 cfg by (auto simp: walkCommit_def)
  next
    case False
    then have ok: "\<And>b. Commit b = c \<Longrightarrow> ?P b" by (simp add: notAllowed_def)
    have root: "dispatches ?P s s2" if "scanFilesAtCommit r c s1 = (x, s2)" for x s2
      using dispatches_trans [OF d1 dispatches_mono [OF scanFilesAtCommit_dispatches ok]] that
      by (metis snd_conv)
    have nonroot: "dispatches ?P s (snd (snd (walkPatch r c parent (cc + 1) s1)))" for parent
      using dispatches_trans [OF d1 dispatches_mono [OF walkPatch_dispatches ok]] .
    show ?thesis
      using Some p False cfg d1 nonroot
      by (auto simp: walkCommit_def split: prod.splits exec.splits sum.splits intro: root)
  qed
qed

lemma forEachCommit_dispatches:
  "dispatches (notAllowed (AllowlistCommits (config s))) s
     (snd (snd (forEachCommit r cs cc s)))"
proof (induction cs arbitrary: cc s)
  case Nil
  show ?case by (simp add: dispatches_refl)
next
  case (Cons co cs)
  obtain x cc1 s1 where w: "walkCommit r co cc s = (x, cc1, s1)"
    by (cases "walkCommit r co cc s") auto
  have d1: "dispatches (notAllowed (AllowlistCommits (config s))) s s1"
    using walkCommit_dispatches [of s r co cc] w by simp
  then have cfg: "config s1 = config s" by (simp add: dispatches_def)
  have d2: "dispatches (notAllowed (AllowlistCommits (config s))) s
              (snd (snd (forEachCommit r cs cc1 s1)))"
    using dispatches_trans [OF d1] Cons.IH [of s1 cc1] cfg by simp
  show ?case
    using w d1 d2 by (auto split: exec.splits sum.splits)
qed

lemma scanHistory_bundles:
  "config (snd (scanHistory r s)) = config s \<and>
   (\<exists>bs. dispatched (snd (scanHistory r s)) = dispatched s @ bs \<and>
      (\<forall>b\<in>set bs. notAllowed (AllowlistCommits (config s)) b))"
proof (cases "getLogOptions r")
  case (Some err)
  then show ?thesis by (simp add: scanHistory_def)
next
  case None
  show ?thesis
  proof (cases "Log r")
    case (Inl err)
    then show ?thesis using None by (simp add: scanHistory_def)
  next
    case (Inr cIter)
    obtain x cc s1 where w: "forEachCommit r cIter 0 s = (x, cc, s1)"
      by (cases "forEachCommit r cIter 0 s") auto
    have d: "dispatches (notAllowed (AllowlistCommits (config s))) s s1"
      using forEachCommit_dispatches [of s r cIter 0] w by simp
    have "snd (scanHistory r s) = s1 \<or>
          snd (scanHistory r s) = IncrementCommits cc (RecordScanTime s1)"
      using None Inr w by (cases x) (simp_all add: scanHistory_def)
    then show ?thesis
      using d by (auto simp: dispatches_def IncrementCommits_def RecordScanTime_def)
  qed
qed

text \<open>
  Claim C3, as amended. In the history walk (none of the options \<open>Commit\<close>,
  \<open>FilesAtCommit\<close>, \<open>Commits\<close>, \<open>CommitsFile\<close> set), no bundle handed to the matcher
  carries a commit whose hash is in the allowlist of the working configuration.
\<close>

theorem history_walk_skips_allowlisted_commits:
  assumes "OptCommit (Opts r) = []" and "OptFilesAtCommit (Opts r) = []"
    and "OptCommits (Opts r) = []" and "OptCommitsFile (Opts r) = []"
  shows "\<exists>bs. dispatched (snd (Scan r s)) = dispatched s @ bs \<and>
           (\<forall>b\<in>set bs. \<not> isCommitAllowListed (Hash (Commit b))
                             (AllowlistCommits (config (snd (Scan r s)))))"
proof -
  have hist: "scanModes r s0 = scanHistory r s0" for s0
    using assms by (simp add: scanModes_def)
  have run: "\<exists>bs. dispatched (snd (scanModes r s0)) = dispatched s0 @ bs \<and>
           (\<forall>b\<in>set bs. \<not> isCommitAllowListed (Hash (Commit b))
                             (AllowlistCommits (config (snd (scanModes r s0)))))" for s0
    using scanHistory_bundles [of r s0] by (simp add: hist notAllowed_def)
  show ?thesis
  proof (cases "setupTimeout r = None \<and> \<not> RepositoryNil r")
    case False
    then show ?thesis by (auto simp: Scan_def split: option.splits)
  next
    case ok: True
    show ?thesis
    proof (cases "OptRepoConfig (Opts r)")
      case False
      then show ?thesis using ok run [of s] by (auto simp: Scan_def split: prod.splits)
    next
      case True
      show ?thesis
      proof (cases "loadRepoConfig r")
        case (Inl err)
        then show ?thesis using ok True by (auto simp: Scan_def)
      next
        case (Inr cfg)
        then show ?thesis
          using ok True run [of "s\<lparr>config := cfg\<rparr>"]
          by (auto simp: Scan_def split: prod.splits)
      qed
    qed
  qed
qed

lemmas walk_defs =
  Scan_def scanModes_def scanHistory_def walkCommit_def walkPatch_def handoff_def
  worker_def depthReached_def isCommitAllowListed_def

theorem history_walk_skips_allowlisted_commits_witness:
  "map (Hash \<circ> Commit)
     (dispatched (snd (Scan demoRepo (demoState\<lparr>config := \<lparr>AllowlistCommits = [hashB]\<rparr>\<rparr>))))
     = [hashC, hashA]"
  using history_walk_skips_allowlisted_commits
    [of demoRepo "demoState\<lparr>config := \<lparr>AllowlistCommits = [hashB]\<rparr>\<rparr>"]
  by (simp add: demo_defs commit_defs walk_defs)

text \<open>Claim C3 as stated fails in the four modes that go through \<open>scanCommit\<close>, which
  never reads the allowlist: an allowlisted commit named by \<open>Commit\<close>, \<open>FilesAtCommit\<close>,
  \<open>Commits\<close> or the commits file is scanned and its bundles reach the matcher.\<close>

theorem allowlisted_commit_scanned_in_commit_modes:
  "map (Hash \<circ> Commit)
     (dispatched (snd (Scan (demoRepo\<lparr>Opts := demoOpts\<lparr>OptCommit := hashA\<rparr>\<rparr>)
                         (demoState\<lparr>config := \<lparr>AllowlistCommits = [hashA]\<rparr>\<rparr>))))
     = [hashA] \<and>
   isCommitAllowListed hashA
     (AllowlistCommits (config (snd (Scan (demoRepo\<lparr>Opts := demoOpts\<lparr>OptCommit := hashA\<rparr>\<rparr>)
                         (demoState\<lparr>config := \<lparr>AllowlistCommits = [hashA]\<rparr>\<rparr>))))) \<and>
   map (Hash \<circ> Commit)
     (dispatched (snd (Scan (demoRepo\<lparr>Opts := demoOpts\<lparr>OptFilesAtCommit := hashB\<rparr>\<rparr>)
                         (demoState\<lparr>config := \<lparr>AllowlistCommits = [hashB]\<rparr>\<rparr>))))
     = [hashB] \<and>
   map (Hash \<circ> Commit)
     (dispatched (snd (Scan (demoRepo\<lparr>Opts := demoOpts\<lparr>OptCommits := hashC @ '','' @ hashA\<rparr>\<rparr>)
                         (demoState\<lparr>config := \<lparr>AllowlistCommits = [hashA, hashC]\<rparr>\<rparr>))))
     = [hashC, hashA] \<and>
   map (Hash \<circ> Commit)
     (dispatched (snd (Scan (demoRepo\<lparr>Opts := demoOpts\<lparr>OptCommitsFile := ''commits.txt''\<rparr>\<rparr>)
                         (demoState\<lparr>config := \<lparr>AllowlistCommits = [hashA]\<rparr>\<rparr>))))
     = [hashA]"
  by (simp add: demo_defs commit_defs walk_defs)

text \<open>
  Claim C1 (the code departs from it). A fatal error of the walk's callback (here: the
  files of a root commit cannot be listed; the first parent cannot be resolved) ends
  \<open>ForEach\<close> with that error, but \<open>Scan\<close> returns nil: the result of \<open>ForEach\<close> is
  assigned and never read.
\<close>

theorem Scan_history_returns_nil_after_walk_error:
  "fst (forEachCommit demoNoTree
          [Some commitC, Some commitB, Some commitA] 0 demoState)
     = Return (Inl (ErrOther ''tree not found'')) \<and>
   fst (Scan demoNoTree demoState)
     = Return (Inr ()) \<and>
   fst (forEachCommit demoNoParent
          [Some commitC, Some commitB, Some commitA] 0 demoState)
     = Return (Inl (ErrOther ''parent not found'')) \<and>
   fst (Scan demoNoParent demoState)
     = Return (Inr ())"
  by (simp add: demo_defs commit_defs walk_defs)

lemma scanHistory_error_is_setup_error:
  "fst (scanHistory r s) = Return (Inl e) \<Longrightarrow> getLogOptions r = Some e \<or> Log r = Inl e"
  by (auto simp: scanHistory_def split: option.splits sum.splits prod.splits exec.splits)

lemma worker_panic_terminates:
  assumes "fst (scanPatch r patch c s) = Panic"
  shows "fst (worker r patch c s) = Terminated \<and>
         sem (snd (worker r patch c s)) = sem s - 1 \<and>
         wg (snd (worker r patch c s)) = wg s - 1"
proof -
  obtain s1 where run: "scanPatch r patch c s = (Panic, s1)"
    using assms by (cases "scanPatch r patch c s") auto
  have "dispatches (\<lambda>b. Commit b = c) s s1"
    using scanPatch_dispatches [of c s r patch] run by simp
  then show ?thesis
    using run by (simp add: worker_def dispatches_def)
qed

lemma patchParent_absorbs_panic:
  assumes "\<not> timeoutAt r (polls s)" and "GenPatch r p c = PatchReturns patch None"
    and "fst (scanPatch r patch c (RecordPatchTime (s\<lparr>polls := Suc (polls s)\<rparr>))) = Panic"
  shows "fst (patchParent r c (Some p) s) = Return (Inr ())"
  using assms
  by (cases "scanPatch r patch c (RecordPatchTime (s\<lparr>polls := Suc (polls s)\<rparr>))")
     (simp add: patchParent_def timeoutReached_def)

text \<open>
  Claim C2 (the code departs from it). When \<open>scanPatch\<close> panics inside a worker (the
  matcher panics, or the patch is nil because \<open>parent.Patch\<close> returned an error that the
  walk only logs), the worker's deferred function releases the semaphore slot and
  signals the wait group, but it does not recover: the goroutine does not exit
  normally and the process ends. The same panic of \<open>scanPatch\<close> under
  \<open>scanCommitPatches\<close> is absorbed by the deferred \<open>recover\<close> of its callback, which
  returns nil.
\<close>

theorem worker_panic_ends_process:
  "fst (scanPatch demoPanicky (Some demoPatch) commitC (demoState\<lparr>sem := 1, wg := 1\<rparr>))
     = Panic \<and>
   fst (worker demoPanicky (Some demoPatch) commitC (demoState\<lparr>sem := 1, wg := 1\<rparr>))
     = Terminated \<and>
   sem (snd (worker demoPanicky (Some demoPatch) commitC (demoState\<lparr>sem := 1, wg := 1\<rparr>)))
     = 0 \<and>
   wg (snd (worker demoPanicky (Some demoPatch) commitC (demoState\<lparr>sem := 1, wg := 1\<rparr>)))
     = 0 \<and>
   GenPatch demoPatchError commitB commitC
     = PatchReturns None (Some (ErrOther ''object not found'')) \<and>
   fst (scanPatch demoPatchError None commitC (demoState\<lparr>sem := 1, wg := 1\<rparr>)) = Panic \<and>
   fst (worker demoPatchError None commitC (demoState\<lparr>sem := 1, wg := 1\<rparr>)) = Terminated \<and>
   fst (Scan demoPanicky demoState) = Terminated \<and>
   fst (Scan demoPatchError demoState) = Terminated \<and>
   fst (patchParent demoPanicky commitC (Some commitB) demoState) = Return (Inr ())"
  by (simp add: demo_defs commit_defs walk_defs)

lemma forEachCommit_prefix:
  "walkPrefix r pre cc s = Some (cc1, s1) \<Longrightarrow>
   forEachCommit r (pre @ rest) cc s = forEachCommit r rest cc1 s1"
  by (induction pre arbitrary: cc s)
     (auto split: prod.splits exec.splits sum.splits)

lemma scanChunks_handoffs:
  "handoffs (snd (scanChunks r c pt f chs s)) = handoffs s"
  by (induction chs arbitrary: s)
     (auto simp: CheckRules_def split: prod.splits exec.splits if_splits)

lemma scanFilePatches_handoffs:
  "handoffs (snd (scanFilePatches r c pt fs s)) = handoffs s"
proof (induction fs arbitrary: s)
  case Nil
  show ?case by simp
next
  case (Cons f fs)
  obtain x s2 where ch: "scanChunks r c pt f (Chunks f) (s\<lparr>polls := Suc (polls s)\<rparr>) = (x, s2)"
    by (cases "scanChunks r c pt f (Chunks f) (s\<lparr>polls := Suc (polls s)\<rparr>)")
  have h2: "handoffs s2 = handoffs s"
    using scanChunks_handoffs [of r c pt f "Chunks f" "s\<lparr>polls := Suc (polls s)\<rparr>"] ch by simp
  show ?case
    using ch h2 Cons.IH [of s2] Cons.IH [of "s\<lparr>polls := Suc (polls s)\<rparr>"]
    by (cases x) (auto simp: timeoutReached_def)
qed

lemma scanPatch_handoffs:
  "handoffs (snd (scanPatch r patch c s)) = handoffs s"
  by (cases patch) (simp_all add: scanPatch_def scanFilePatches_handoffs)

lemma handoff_handoffs:
  "handoffs (snd (handoff r patch c s)) = handoffs s @ [c]"
proof -
  let ?s0 = "s\<lparr>wg := Suc (wg s), sem := Suc (sem s), handoffs := handoffs s @ [c]\<rparr>"
  obtain x s1 where run: "scanPatch r patch c ?s0 = (x, s1)"
    by (cases "scanPatch r patch c ?s0")
  have "handoffs s1 = handoffs s @ [c]"
    using scanPatch_handoffs [of r patch c ?s0] run by simp
  then show ?thesis
    using run by (cases x) (simp_all add: handoff_def worker_def)
qed

lemma walkCommit_at_CommitTo:
  assumes "Hash h = OptCommitTo (Opts r)"
    and "\<not> timeoutAt r (polls s)" and "\<not> timeoutAt r (Suc (polls s))"
    and "\<not> depthReached r cc"
    and "\<not> isCommitAllowListed (Hash h) (AllowlistCommits (config s))"
    and "ParentHashes h \<noteq> []"
    and "Parent0 r h = Inr (Some p)"
    and "GenPatch r p h = PatchReturns patch err"
  shows "(fst (walkCommit r (Some h) cc s) = Return (Inl ErrStop) \<or>
          fst (walkCommit r (Some h) cc s) = Terminated) \<and>
         handoffs (snd (snd (walkCommit r (Some h) cc s))) = handoffs s @ [h]"
proof -
  let ?s2 = "RecordPatchTime (s\<lparr>polls := Suc (Suc (polls s))\<rparr>)"
  have w: "walkCommit r (Some h) cc s =
     (case handoff r patch h ?s2 of
        (Return _, s3) \<Rightarrow> (Return (Inl ErrStop), cc + 1, s3)
      | (Panic, s3) \<Rightarrow> (Terminated, cc + 1, s3)
      | (Terminated, s3) \<Rightarrow> (Terminated, cc + 1, s3))"
    using assms by (simp add: walkCommit_def walkPatch_def timeoutReached_def)
  obtain x s3 where run: "handoff r patch h ?s2 = (x, s3)"
    by (cases "handoff r patch h ?s2")
  have "handoffs s3 = handoffs s @ [h]"
    using handoff_handoffs [of r patch h ?s2] run by (simp add: RecordPatchTime_def)
  then show ?thesis
    using w run by (cases x) simp_all
qed

text \<open>
  Claim C4, as amended. Let the walk arrive at a commit \<open>h\<close> whose hash is \<open>CommitTo\<close>
  (the callback returned nil for every commit before it). If no timeout fires at
  \<open>h\<close>, the depth is not reached, \<open>h\<close> is not allowlisted, \<open>h\<close> has a parent, its first
  parent resolves and patch generation returns, then \<open>h\<close> is handed to a worker and the
  walk ends there: the run is the run over the log cut after \<open>h\<close>, so no commit after
  \<open>h\<close> is entered or dispatched.
\<close>

theorem commitTo_hands_over_and_stops_walk:
  assumes "walkPrefix r pre cc s = Some (cc', s')"
    and "Hash h = OptCommitTo (Opts r)"
    and "\<not> timeoutAt r (polls s')" and "\<not> timeoutAt r (Suc (polls s'))"
    and "\<not> depthReached r cc'"
    and "\<not> isCommitAllowListed (Hash h) (AllowlistCommits (config s'))"
    and "ParentHashes h \<noteq> []"
    and "Parent0 r h = Inr (Some p)"
    and "GenPatch r p h = PatchReturns patch err"
  shows "forEachCommit r (pre @ Some h # post) cc s = forEachCommit r (pre @ [Some h]) cc s \<and>
         handoffs (snd (snd (forEachCommit r (pre @ Some h # post) cc s))) = handoffs s' @ [h]"
proof -
  obtain x cc2 s2 where w: "walkCommit r (Some h) cc' s' = (x, cc2, s2)"
    by (cases "walkCommit r (Some h) cc' s'") auto
  have "(x = Return (Inl ErrStop) \<or> x = Terminated) \<and> handoffs s2 = handoffs s' @ [h]"
    using walkCommit_at_CommitTo [OF assms(2-9)] w by simp
  then have tail:
    "forEachCommit r (Some h # post) cc' s' = forEachCommit r [Some h] cc' s' \<and>
     handoffs (snd (snd (forEachCommit r (Some h # post) cc' s'))) = handoffs s' @ [h]"
    using w by auto
  have a: "forEachCommit r (pre @ Some h # post) cc s = forEachCommit r (Some h # post) cc' s'"
    using forEachCommit_prefix [OF assms(1)] .
  have b: "forEachCommit r (pre @ [Some h]) cc s = forEachCommit r [Some h] cc' s'"
    using forEachCommit_prefix [OF assms(1)] .
  show ?thesis
    unfolding a b by (rule tail)
qed

theorem commitTo_hands_over_and_stops_walk_witness:
  "forEachCommit (demoRepo\<lparr>Opts := demoOpts\<lparr>OptCommitTo := hashB\<rparr>\<rparr>)
       [Some commitC, Some commitB, Some commitA] 0 demoState =
     forEachCommit (demoRepo\<lparr>Opts := demoOpts\<lparr>OptCommitTo := hashB\<rparr>\<rparr>)
       [Some commitC, Some commitB] 0 demoState \<and>
   handoffs (snd (snd (forEachCommit (demoRepo\<lparr>Opts := demoOpts\<lparr>OptCommitTo := hashB\<rparr>\<rparr>)
       [Some commitC, Some commitB, Some commitA] 0 demoState))) = [commitC, commitB] \<and>
   map (Hash \<circ> Commit)
     (dispatched (snd (Scan (demoRepo\<lparr>Opts := demoOpts\<lparr>OptCommitTo := hashB\<rparr>\<rparr>) demoState)))
     = [hashC, hashB]"
  using commitTo_hands_over_and_stops_walk
    [where r = "demoRepo\<lparr>Opts := demoOpts\<lparr>OptCommitTo := hashB\<rparr>\<rparr>"
       and pre = "[Some commitC]" and cc = 0 and s = demoState and h = commitB
       and post = "[Some commitA]" and p = commitA and patch = "Some demoPatch" and err = None
       and cc' = 1
       and s' = "snd (snd (walkCommit (demoRepo\<lparr>Opts := demoOpts\<lparr>OptCommitTo := hashB\<rparr>\<rparr>)
                                (Some commitC) 0 demoState))"]
  by (simp add: demo_defs commit_defs walk_defs)

text \<open>Claim C4 as stated fails: when the commit named by \<open>CommitTo\<close> is allowlisted,
  or patch generation panics on it, the callback returns nil before it compares the
  hash with \<open>CommitTo\<close>; the commit is not handed to a worker and the walk goes on to
  the commits after it.\<close>

theorem commitTo_skipped_when_allowlisted_or_patch_panics:
  "handoffs (snd (Scan (demoRepo\<lparr>Opts := demoOpts\<lparr>OptCommitTo := hashB\<rparr>\<rparr>)
                    (demoState\<lparr>config := \<lparr>AllowlistCommits = [hashB]\<rparr>\<rparr>))) = [commitC] \<and>
   map (Hash \<circ> Commit)
     (dispatched (snd (Scan (demoRepo\<lparr>Opts := demoOpts\<lparr>OptCommitTo := hashB\<rparr>\<rparr>)
                         (demoState\<lparr>config := \<lparr>AllowlistCommits = [hashB]\<rparr>\<rparr>))))
     = [hashC, hashA] \<and>
   map (Hash \<circ> Commit)
     (dispatched (snd (Scan (demoPatchPanics\<lparr>Opts := demoOpts\<lparr>OptCommitTo := hashB\<rparr>\<rparr>)
                         demoState)))
     = [hashC, hashA]"
  by (simp add: demo_defs commit_defs walk_defs)

lemma scanChunks_returns:
  "\<forall>b. \<not> matcherPanics r b \<Longrightarrow> fst (scanChunks r c pt f chs s) = Return ()"
  by (induction chs arbitrary: s) (auto simp: CheckRules_def split: prod.splits exec.splits)

lemma scanFilePatches_returns:
  "\<forall>b. \<not> matcherPanics r b \<Longrightarrow> fst (scanFilePatches r c pt fs s) = Return ()"
proof (induction fs arbitrary: s)
  case Nil
  show ?case by simp
next
  case (Cons f fs)
  obtain x s2 where ch: "scanChunks r c pt f (Chunks f) (s\<lparr>polls := Suc (polls s)\<rparr>) = (x, s2)"
    by (cases "scanChunks r c pt f (Chunks f) (s\<lparr>polls := Suc (polls s)\<rparr>)")
  have "x = Return ()"
    using scanChunks_returns [OF Cons.prems, of c pt f "Chunks f" "s\<lparr>polls := Suc (polls s)\<rparr>"] ch
    by simp
  then show ?case
    using ch Cons.IH [OF Cons.prems] by (simp add: timeoutReached_def)
qed

lemma handoff_returns:
  "\<forall>b. \<not> matcherPanics r b \<Longrightarrow> fst (handoff r (Some p) c s) = Return ()"
proof -
  assume np: "\<forall>b. \<not> matcherPanics r b"
  let ?s0 = "s\<lparr>wg := Suc (wg s), sem := Suc (sem s), handoffs := handoffs s @ [c]\<rparr>"
  have "fst (scanPatch r (Some p) c ?s0) = Return ()"
    using scanFilePatches_returns [OF np] by (simp add: scanPatch_def)
  then show ?thesis
    by (cases "scanPatch r (Some p) c ?s0") (simp add: handoff_def worker_def)
qed

lemma scanFiles_returns:
  assumes "\<forall>n. \<not> timeoutAt r n" and "\<forall>b. \<not> matcherPanics r b"
    and "\<forall>f\<in>set fs. fst (fileIsBinary f) \<or>
             (snd (fileIsBinary f) = None \<and> (\<exists>content. fileContents f = Inr content))"
  shows "fst (scanFiles r c fs s) = Return (Inr ())"
  using assms(3)
proof (induction fs arbitrary: s)
  case Nil
  show ?case by simp
next
  case (Cons f fs)
  then show ?case
    using assms(1,2)
    by (cases "fileIsBinary f")
       (auto simp: timeoutReached_def CheckRules_def split: option.splits sum.splits)
qed

lemma scanFilesAtCommit_returns:
  assumes "\<forall>n. \<not> timeoutAt r n" and "\<forall>b. \<not> matcherPanics r b" and "filesReadable r c"
  shows "fst (scanFilesAtCommit r c s) = Return (Inr ())"
  using assms scanFiles_returns [OF assms(1,2)]
  by (auto simp: filesReadable_def scanFilesAtCommit_def split: sum.splits)


lemma walkCommit_counter:
  "fst (snd (walkCommit r co cc s)) = cc \<or>
   (fst (snd (walkCommit r co cc s)) = cc + 1 \<and> \<not> depthReached r cc)"
  by (auto simp: walkCommit_def walkPatch_def
           split: option.splits prod.splits exec.splits sum.splits patch_result.splits)

lemma forEachCommit_cap:
  assumes "0 < OptDepth (Opts r)"
  shows "cc \<le> OptDepth (Opts r) \<Longrightarrow> fst (snd (forEachCommit r cs cc s)) \<le> OptDepth (Opts r)"
proof (induction cs arbitrary: cc s)
  case Nil
  then show ?case by simp
next
  case (Cons co cs)
  obtain x cc1 s1 where w: "walkCommit r co cc s = (x, cc1, s1)"
    by (cases "walkCommit r co cc s") auto
  have "cc1 = cc \<or> (cc1 = cc + 1 \<and> \<not> depthReached r cc)"
    using walkCommit_counter [of r co cc s] w by simp
  then have le: "cc1 \<le> OptDepth (Opts r)"
    using Cons.prems assms by (auto simp: depthReached_def)
  show ?case
    using w le Cons.IH [OF le, of s1] by (auto split: exec.splits sum.splits)
qed

lemma walkCommit_depthReached:
  "depthReached r cc \<Longrightarrow>
   walkCommit r (Some c) cc s = (Return (Inl ErrStop), cc, snd (timeoutReached r s))"
  by (simp add: walkCommit_def timeoutReached_def)

lemma walkCommit_undisturbed:
  assumes "\<forall>n. \<not> timeoutAt r n" and "\<forall>b. \<not> matcherPanics r b"
    and "Hash c \<noteq> OptCommitTo (Opts r)"
    and "if ParentHashes c = [] then filesReadable r c
         else (\<exists>parent. Parent0 r c = Inr parent \<and>
                 (\<forall>p err. parent = Some p \<longrightarrow> GenPatch r p c \<noteq> PatchReturns None err))"
    and "\<not> depthReached r cc"
  shows "fst (walkCommit r (Some c) cc s) = Return (Inr ()) \<and>
         fst (snd (walkCommit r (Some c) cc s)) = (if entered s (Some c) then cc + 1 else cc)"
proof (cases "isCommitAllowListed (Hash c) (AllowlistCommits (config s))")
  case True
  then show ?thesis
    using assms(1,5) by (simp add: walkCommit_def timeoutReached_def entered_def)
next
  case na: False
  show ?thesis
  proof (cases "ParentHashes c = []")
    case True
    then have "fst (scanFilesAtCommit r c (s\<lparr>polls := Suc (polls s)\<rparr>)) = Return (Inr ())"
      using scanFilesAtCommit_returns [OF assms(1,2)] assms(4) by simp
    then obtain s2 where "scanFilesAtCommit r c (s\<lparr>polls := Suc (polls s)\<rparr>) = (Return (Inr ()), s2)"
      by (cases "scanFilesAtCommit r c (s\<lparr>polls := Suc (polls s)\<rparr>)") auto
    then show ?thesis
      using True na assms(1,5)
      by (simp add: walkCommit_def timeoutReached_def entered_def)
  next
    case False
    then obtain parent where par: "Parent0 r c = Inr parent"
      and gp: "\<And>p err. parent = Some p \<Longrightarrow> GenPatch r p c \<noteq> PatchReturns None err"
      using assms(4) by auto
    have ho: "fst (handoff r (Some p) c s') = Return ()" for p s'
      using handoff_returns [OF assms(2)] by simp
    have "fst (walkPatch r c parent (cc + 1) s') = Return (Inr ()) \<and>
          fst (snd (walkPatch r c parent (cc + 1) s')) = cc + 1" for s'
    proof (cases parent)
      case None
      then show ?thesis using assms(1) by (simp add: walkPatch_def timeoutReached_def)
    next
      case (Some p)
      show ?thesis
      proof (cases "GenPatch r p c")
        case PatchPanics
        then show ?thesis using Some assms(1) by (simp add: walkPatch_def timeoutReached_def)
      next
        case (PatchReturns patch err)
        then obtain q where q: "patch = Some q" using gp [OF Some, of err] by (cases patch) auto
        obtain s3 where "handoff r (Some q) c (RecordPatchTime (s'\<lparr>polls := Suc (polls s')\<rparr>))
                           = (Return (), s3)"
          using ho [of q "RecordPatchTime (s'\<lparr>polls := Suc (polls s')\<rparr>)"]
          by (cases "handoff r (Some q) c (RecordPatchTime (s'\<lparr>polls := Suc (polls s')\<rparr>))") auto
        then show ?thesis
          using Some PatchReturns q assms(1,3) by (simp add: walkPatch_def timeoutReached_def)
      qed
    qed
    then show ?thesis
      using False na par assms(1,5)
      by (simp add: walkCommit_def timeoutReached_def entered_def)
  qed
qed

lemma entered_config: "config s' = config s \<Longrightarrow> entered s' = entered s"
  by (auto simp: entered_def fun_eq_iff split: option.splits)

lemma forEachCommit_count:
  assumes "0 < OptDepth (Opts r)"
  shows "undisturbed r cs \<Longrightarrow> cc \<le> OptDepth (Opts r) \<Longrightarrow>
     fst (forEachCommit r cs cc s) = Return (Inr ()) \<and>
     fst (snd (forEachCommit r cs cc s)) =
       min (OptDepth (Opts r)) (cc + int (length (filter (entered s) cs)))"
proof (induction cs arbitrary: cc s)
  case Nil
  then show ?case by simp
next
  case (Cons co cs)
  from Cons.prems(1) obtain c where co: "co = Some c"
    by (cases co) (auto simp: undisturbed_def)
  have rest: "undisturbed r cs"
    using Cons.prems(1) by (simp add: undisturbed_def)
  show ?case
  proof (cases "cc = OptDepth (Opts r)")
    case True
    then have "depthReached r cc" using assms by (simp add: depthReached_def)
    then show ?thesis
      using co True walkCommit_depthReached [of r cc c s] by simp
  next
    case False
    then have nd: "\<not> depthReached r cc" by (simp add: depthReached_def)
    obtain x cc1 s1 where w: "walkCommit r (Some c) cc s = (x, cc1, s1)"
      by (cases "walkCommit r (Some c) cc s") auto
    have "fst (walkCommit r (Some c) cc s) = Return (Inr ()) \<and>
          fst (snd (walkCommit r (Some c) cc s)) = (if entered s (Some c) then cc + 1 else cc)"
      using Cons.prems(1) co nd by (intro walkCommit_undisturbed) (auto simp: undisturbed_def)
    then have x: "x = Return (Inr ())" and cc1: "cc1 = (if entered s (Some c) then cc + 1 else cc)"
      using w by simp_all
    have "config s1 = config s"
      using walkCommit_dispatches [of s r "Some c" cc] w by (simp add: dispatches_def)
    then have e: "entered s1 = entered s" by (rule entered_config)
    have le: "cc1 \<le> OptDepth (Opts r)"
      using cc1 False Cons.prems(2) by auto
    show ?thesis
      using w x cc1 co e Cons.IH [OF rest le, of s1] by auto
  qed
qed


lemma scanHistory_counter:
  assumes "getLogOptions r = None" and "Log r = Inr cs"
    and "fst (forEachCommit r cs 0 s) = Return res"
  shows "fst (scanHistory r s) = Return (Inr ()) \<and>
         mgrCommits (snd (scanHistory r s)) = mgrCommits s + fst (snd (forEachCommit r cs 0 s))"
proof -
  obtain cc s1 where w: "forEachCommit r cs 0 s = (Return res, cc, s1)"
    using assms(3) by (cases "forEachCommit r cs 0 s") auto
  have "mgrCommits s1 = mgrCommits s"
    using forEachCommit_dispatches [of s r cs 0] w by (simp add: dispatches_def)
  then show ?thesis
    using assms(1,2) w
    by (simp add: scanHistory_def IncrementCommits_def RecordScanTime_def)
qed

text \<open>
  Claim C5, as amended. With \<open>Depth = k > 0\<close> the walk never enters more than \<open>k\<close>
  commits, and a callback invoked once \<open>k\<close> commits were entered ends the walk without
  entering its commit. Over a log with at least \<open>k\<close> commits that are not allowlisted,
  exactly \<open>k\<close> commits are entered, and the manager's commit counter grows by \<open>k\<close>,
  provided nothing else ends the walk first (\<open>undisturbed\<close>).
\<close>

theorem depth_caps_commits_entered:
  assumes "0 < OptDepth (Opts r)"
  shows "fst (snd (forEachCommit r cs 0 s)) \<le> OptDepth (Opts r) \<and>
         forEachCommit r (Some c # rest) (OptDepth (Opts r)) s =
           (Return (Inr ()), OptDepth (Opts r), snd (timeoutReached r s)) \<and>
         (undisturbed r cs \<and> OptDepth (Opts r) \<le> int (length (filter (entered s) cs)) \<longrightarrow>
            fst (snd (forEachCommit r cs 0 s)) = OptDepth (Opts r) \<and>
            (getLogOptions r = None \<and> Log r = Inr cs \<longrightarrow>
               fst (scanHistory r s) = Return (Inr ()) \<and>
               mgrCommits (snd (scanHistory r s)) = mgrCommits s + OptDepth (Opts r)))"
proof (intro conjI impI)
  show "fst (snd (forEachCommit r cs 0 s)) \<le> OptDepth (Opts r)"
    using forEachCommit_cap [OF assms, of 0 cs s] assms by simp
  have "depthReached r (OptDepth (Opts r))"
    using assms by (simp add: depthReached_def)
  then show "forEachCommit r (Some c # rest) (OptDepth (Opts r)) s =
           (Return (Inr ()), OptDepth (Opts r), snd (timeoutReached r s))"
    using walkCommit_depthReached [of r "OptDepth (Opts r)" c s] by simp
next
  assume u: "undisturbed r cs \<and> OptDepth (Opts r) \<le> int (length (filter (entered s) cs))"
  have cnt: "fst (forEachCommit r cs 0 s) = Return (Inr ()) \<and>
     fst (snd (forEachCommit r cs 0 s)) =
       min (OptDepth (Opts r)) (0 + int (length (filter (entered s) cs)))"
    using forEachCommit_count [OF assms, of cs 0 s] u assms by simp
  then show k: "fst (snd (forEachCommit r cs 0 s)) = OptDepth (Opts r)"
    using u by simp
  assume l: "getLogOptions r = None \<and> Log r = Inr cs"
  show "fst (scanHistory r s) = Return (Inr ())"
    using scanHistory_counter [of r cs s] l cnt by simp
  show "mgrCommits (snd (scanHistory r s)) = mgrCommits s + OptDepth (Opts r)"
    using scanHistory_counter [of r cs s] l cnt k by simp
qed

theorem depth_caps_commits_entered_witness:
  "fst (snd (forEachCommit (demoRepo\<lparr>Opts := demoOpts\<lparr>OptDepth := 2\<rparr>\<rparr>)
               [Some commitC, Some commitB, Some commitA] 0 demoState)) = 2 \<and>
   mgrCommits (snd (scanHistory (demoRepo\<lparr>Opts := demoOpts\<lparr>OptDepth := 2\<rparr>\<rparr>) demoState)) = 2 \<and>
   handoffs (snd (scanHistory (demoRepo\<lparr>Opts := demoOpts\<lparr>OptDepth := 2\<rparr>\<rparr>) demoState))
     = [commitC, commitB] \<and>
   length (filter (entered demoState) [Some commitC, Some commitB, Some commitA]) = 3"
  using depth_caps_commits_entered
    [where r = "demoRepo\<lparr>Opts := demoOpts\<lparr>OptDepth := 2\<rparr>\<rparr>"
       and cs = "[Some commitC, Some commitB, Some commitA]" and s = demoState
       and c = commitA and rest = "[]"]
  by (simp add: demo_defs commit_defs walk_defs undisturbed_def filesReadable_def entered_def)

text \<open>Claim C5 as stated fails: with \<open>Depth = 2\<close> over three commits, none
  allowlisted, the walk enters one commit when the first one is the \<open>CommitTo\<close> commit
  or the second one's callback fails, and none when the timeout has fired.\<close>

theorem depth_not_reached_when_walk_ends_early:
  "length (filter (entered demoState) [Some commitC, Some commitB, Some commitA]) = 3 \<and>
   fst (snd (forEachCommit (demoRepo\<lparr>Opts := demoOpts\<lparr>OptDepth := 2, OptCommitTo := hashC\<rparr>\<rparr>)
               [Some commitC, Some commitB, Some commitA] 0 demoState)) = 1 \<and>
   mgrCommits (snd (Scan (demoRepo\<lparr>Opts := demoOpts\<lparr>OptDepth := 2, OptCommitTo := hashC\<rparr>\<rparr>)
                     demoState)) = 1 \<and>
   mgrCommits (snd (Scan (demoTimedOut\<lparr>Opts := demoOpts\<lparr>OptDepth := 2\<rparr>\<rparr>) demoState)) = 0 \<and>
   mgrCommits (snd (Scan (demoNoParent\<lparr>Opts := demoOpts\<lparr>OptDepth := 2\<rparr>\<rparr>)
                     demoState)) = 1"
  by (simp add: demo_defs commit_defs walk_defs entered_def)

end
